theory Spec2Isabelle
  imports Main "HOL-Library.Word" "HOL-Library.Monad_Syntax"
begin

section \<open>Wa-Tor: the data model of main.go\<close>

text \<open>
  The Go program keeps creatures behind pointers: a grid cell is a \<open>*Creature\<close>, the
  transition mutates the creature it finds in the old grid and stores the same pointer
  into the new grid. The embedding therefore has an explicit store: an address is an index
  into a list of creature records, a cell is \<open>None\<close> (nil) or \<open>Some address\<close>.
  Go's \<open>int\<close> is 64 bits on the platform of the README (linux/arm64); the creature
  counters and the thresholds are \<open>64 word\<close>, compared as signed values. Coordinates and
  the grid size index slices, so they are far from the word bound and are plain \<open>int\<close>.
  A Go panic (index out of range, division by zero, \<open>rand.Intn\<close> on a non-positive
  argument, \<open>make\<close> with a negative length) is the result \<open>None\<close>.
\<close>

datatype Species = Empty | Fish | Shark

record Creature =
  Species :: Species
  Age :: "64 word"
  Energy :: "64 word"
  LastBreed :: "64 word"

type_synonym addr = nat

type_synonym Grid = "addr option list list"

record World =
  Grid :: Grid
  Size :: int
  FishBreed :: "64 word"
  SharkBreed :: "64 word"
  Starve :: "64 word"

text \<open>
  What happened during a scan. The source keeps no such log: \<open>events\<close> is a ghost field
  that is only ever appended to and never read by the transition, so that statements
  about "whenever a shark eats", "whenever a cell is skipped" or "an assignment hit an
  occupied cell" can be written down.
\<close>

datatype Event =
    Skipped int int
  | Starved addr
  | Ate addr int int
  | Bred addr addr
  | Clobbered int int

text \<open>
  The mutable state the transition threads through: the creature store, the grid of the
  world under construction, the not yet consumed draws of the random source
  (\<open>rand.Intn n\<close> takes the next draw modulo \<open>n\<close>; an exhausted list draws 0), and the
  ghost log.
\<close>

record State =
  heap :: "Creature list"
  newGrid :: Grid
  rng :: "nat list"
  events :: "Event list"

section \<open>Primitive operations\<close>

text \<open>Go's \<open>%\<close> truncates towards zero: the remainder has the sign of the dividend.\<close>

definition go_rem :: "int \<Rightarrow> int \<Rightarrow> int" where
  "go_rem a b = sgn a * (\<bar>a\<bar> mod \<bar>b\<bar>)"

text \<open>\<open>g[x][y]\<close>: panics when \<open>x\<close> or \<open>y\<close> is out of range.\<close>

definition cellAt :: "Grid \<Rightarrow> int \<Rightarrow> int \<Rightarrow> addr option option" where
  "cellAt g x y =
     (if 0 \<le> x \<and> nat x < length g
      then (if 0 \<le> y \<and> nat y < length (g ! nat x)
            then Some (g ! nat x ! nat y) else None)
      else None)"

text \<open>\<open>g[x][y] = v\<close>, with the same range checks.\<close>

definition setCell :: "Grid \<Rightarrow> int \<Rightarrow> int \<Rightarrow> addr option \<Rightarrow> Grid option" where
  "setCell g x y v =
     (if 0 \<le> x \<and> nat x < length g
      then (if 0 \<le> y \<and> nat y < length (g ! nat x)
            then Some (g[nat x := (g ! nat x)[nat y := v]]) else None)
      else None)"

text \<open>Reading through a pointer; an address outside the store cannot arise in Go.\<close>

definition deref :: "Creature list \<Rightarrow> addr \<Rightarrow> Creature option" where
  "deref h a = (if a < length h then Some (h ! a) else None)"

text \<open>\<open>&Creature{...}\<close>: a fresh address, the next free index of the store.\<close>

definition alloc :: "Creature \<Rightarrow> State \<Rightarrow> addr \<times> State" where
  "alloc c st = (length (heap st), st\<lparr>heap := heap st @ [c]\<rparr>)"

text \<open>
  \<open>newWorld.Grid[x][y] = a\<close>. The assignment overwrites whatever the cell holds; the ghost
  log notes when the cell was not nil.
\<close>

definition place :: "int \<Rightarrow> int \<Rightarrow> addr \<Rightarrow> State \<Rightarrow> State option" where
  "place x y a st =
     do {
       was \<leftarrow> cellAt (newGrid st) x y;
       g \<leftarrow> setCell (newGrid st) x y (Some a);
       Some (st\<lparr>newGrid := g,
                events := (case was of None \<Rightarrow> events st
                           | Some b \<Rightarrow> events st @ [Clobbered x y])\<rparr>)
     }"

definition Intn :: "int \<Rightarrow> State \<Rightarrow> (int \<times> State) option" where
  "Intn n st =
     (if n \<le> 0 then None
      else (case rng st of
              [] \<Rightarrow> Some (0, st)
            | r # rs \<Rightarrow> Some (int (r mod nat n), st\<lparr>rng := rs\<rparr>)))"

section \<open>createWorld and getAdjacentPositions\<close>

definition createWorld :: "int \<Rightarrow> World option" where
  "createWorld sz =
     (if sz < 0 then None
      else Some \<lparr>Grid = replicate (nat sz) (replicate (nat sz) None), Size = sz,
                 FishBreed = 0, SharkBreed = 0, Starve = 0\<rparr>)"

definition getAdjacentPositions :: "int \<Rightarrow> int \<Rightarrow> int \<Rightarrow> (int \<times> int) list option" where
  "getAdjacentPositions x y sz =
     (if sz = 0 then None
      else Some [(go_rem (x - 1 + sz) sz, y),
                 (go_rem (x + 1) sz, y),
                 (x, go_rem (y - 1 + sz) sz),
                 (x, go_rem (y + 1) sz)])"

section \<open>The transition: processFish, processShark, processChronon\<close>

text \<open>
  The candidate loops of processFish and processShark. Go's \<open>&&\<close> evaluates its right
  operand only when the left one holds.
\<close>

fun gatherEmpty :: "Grid \<Rightarrow> Grid \<Rightarrow> (int \<times> int) list \<Rightarrow> (int \<times> int) list option" where
  "gatherEmpty og ng [] = Some []"
| "gatherEmpty og ng (pos # rest) =
     do {
       o1 \<leftarrow> cellAt og (fst pos) (snd pos);
       keep \<leftarrow> (if o1 = None
                then do { n1 \<leftarrow> cellAt ng (fst pos) (snd pos); Some (n1 = None) }
                else Some False);
       more \<leftarrow> gatherEmpty og ng rest;
       Some (if keep then pos # more else more)
     }"

fun gatherFish ::
  "Creature list \<Rightarrow> Grid \<Rightarrow> Grid \<Rightarrow> (int \<times> int) list \<Rightarrow> (int \<times> int) list option" where
  "gatherFish h og ng [] = Some []"
| "gatherFish h og ng (pos # rest) =
     do {
       o1 \<leftarrow> cellAt og (fst pos) (snd pos);
       keep \<leftarrow> (case o1 of
                  None \<Rightarrow> Some False
                | Some b \<Rightarrow>
                    do {
                      c \<leftarrow> deref h b;
                      if Species c = Fish
                      then do { n1 \<leftarrow> cellAt ng (fst pos) (snd pos); Some (n1 = None) }
                      else Some False
                    });
       more \<leftarrow> gatherFish h og ng rest;
       Some (if keep then pos # more else more)
     }"

definition processFish :: "World \<Rightarrow> int \<Rightarrow> int \<Rightarrow> addr \<Rightarrow> State \<Rightarrow> State option" where
  "processFish oldWorld x y fish st =
     do {
       adjacent \<leftarrow> getAdjacentPositions x y (Size oldWorld);
       emptyCells \<leftarrow> gatherEmpty (Grid oldWorld) (newGrid st) adjacent;
       if length emptyCells = 0 then place x y fish st
       else do {
         (i, st1) \<leftarrow> Intn (int (length emptyCells)) st;
         f \<leftarrow> deref (heap st1) fish;
         if FishBreed oldWorld \<le>s LastBreed f
         then do {
           (child, st2) \<leftarrow>
              Some (alloc \<lparr>Species = Fish, Age = 0, Energy = 0, LastBreed = 0\<rparr> st1);
           st3 \<leftarrow> place x y child st2;
           st4 \<leftarrow> place (fst (emptyCells ! nat i)) (snd (emptyCells ! nat i)) fish st3;
           Some (st4\<lparr>heap := (heap st4)[fish := f\<lparr>LastBreed := 0\<rparr>],
                     events := events st4 @ [Bred fish child]\<rparr>)
         }
         else place (fst (emptyCells ! nat i)) (snd (emptyCells ! nat i)) fish st1
       }
     }"

definition processShark :: "World \<Rightarrow> int \<Rightarrow> int \<Rightarrow> addr \<Rightarrow> State \<Rightarrow> State option" where
  "processShark oldWorld x y shark st =
     do {
       s0 \<leftarrow> deref (heap st) shark;
       s1 \<leftarrow> Some (s0\<lparr>Energy := Energy s0 - 1\<rparr>);
       sta \<leftarrow> Some (st\<lparr>heap := (heap st)[shark := s1]\<rparr>);
       if Energy s1 \<le>s 0 then Some (sta\<lparr>events := events sta @ [Starved shark]\<rparr>)
       else do {
         adjacent \<leftarrow> getAdjacentPositions x y (Size oldWorld);
         fishCells \<leftarrow> gatherFish (heap sta) (Grid oldWorld) (newGrid sta) adjacent;
         if length fishCells > 0
         then do {
           (i, stb) \<leftarrow> Intn (int (length fishCells)) sta;
           s2 \<leftarrow> Some (s1\<lparr>Energy := Starve oldWorld\<rparr>);
           stc \<leftarrow> Some (stb\<lparr>heap := (heap stb)[shark := s2],
                             events := events stb @
                               [Ate shark (fst (fishCells ! nat i)) (snd (fishCells ! nat i))]\<rparr>);
           if SharkBreed oldWorld \<le>s LastBreed s2
           then do {
             (child, st2) \<leftarrow>
                Some (alloc \<lparr>Species = Shark, Age = 0, Energy = Starve oldWorld,
                             LastBreed = 0\<rparr> stc);
             st3 \<leftarrow> place x y child st2;
             st4 \<leftarrow> place (fst (fishCells ! nat i)) (snd (fishCells ! nat i)) shark st3;
             Some (st4\<lparr>heap := (heap st4)[shark := s2\<lparr>LastBreed := 0\<rparr>],
                       events := events st4 @ [Bred shark child]\<rparr>)
           }
           else place (fst (fishCells ! nat i)) (snd (fishCells ! nat i)) shark stc
         }
         else do {
           emptyCells \<leftarrow> gatherEmpty (Grid oldWorld) (newGrid sta) adjacent;
           if length emptyCells = 0 then place x y shark sta
           else do {
             (i, stb) \<leftarrow> Intn (int (length emptyCells)) sta;
             if SharkBreed oldWorld \<le>s LastBreed s1
             then do {
               (child, st2) \<leftarrow>
                  Some (alloc \<lparr>Species = Shark, Age = 0, Energy = Starve oldWorld,
                               LastBreed = 0\<rparr> stb);
               st3 \<leftarrow> place x y child st2;
               st4 \<leftarrow> place (fst (emptyCells ! nat i)) (snd (emptyCells ! nat i)) shark st3;
               Some (st4\<lparr>heap := (heap st4)[shark := s1\<lparr>LastBreed := 0\<rparr>],
                         events := events st4 @ [Bred shark child]\<rparr>)
             }
             else place (fst (emptyCells ! nat i)) (snd (emptyCells ! nat i)) shark stb
           }
         }
       }
     }"

text \<open>The body of the two nested loops of processChronon, for the cell \<open>(x, y)\<close>.\<close>

definition visitCell :: "World \<Rightarrow> int \<Rightarrow> int \<Rightarrow> State \<Rightarrow> State option" where
  "visitCell oldWorld x y st =
     do {
       creature \<leftarrow> cellAt (Grid oldWorld) x y;
       case creature of
         None \<Rightarrow> Some st
       | Some a \<Rightarrow>
           do {
             n1 \<leftarrow> cellAt (newGrid st) x y;
             if n1 \<noteq> None then Some (st\<lparr>events := events st @ [Skipped x y]\<rparr>)
             else do {
               c \<leftarrow> deref (heap st) a;
               c1 \<leftarrow> Some (c\<lparr>Age := Age c + 1, LastBreed := LastBreed c + 1\<rparr>);
               st1 \<leftarrow> Some (st\<lparr>heap := (heap st)[a := c1]\<rparr>);
               case Species c1 of
                 Fish \<Rightarrow> processFish oldWorld x y a st1
               | Shark \<Rightarrow> processShark oldWorld x y a st1
               | Empty \<Rightarrow> Some st1
             }
           }
     }"

text \<open>\<open>for y := 0; y < oldWorld.Size; y++\<close> runs over \<open>[0..Size - 1]\<close>, and so does \<open>x\<close>.\<close>

fun scanColumn :: "World \<Rightarrow> int \<Rightarrow> int list \<Rightarrow> State \<Rightarrow> State option" where
  "scanColumn oldWorld x [] st = Some st"
| "scanColumn oldWorld x (y # ys) st =
     do { st1 \<leftarrow> visitCell oldWorld x y st; scanColumn oldWorld x ys st1 }"

fun scanGrid :: "World \<Rightarrow> int list \<Rightarrow> State \<Rightarrow> State option" where
  "scanGrid oldWorld [] st = Some st"
| "scanGrid oldWorld (x # xs) st =
     do {
       st1 \<leftarrow> scanColumn oldWorld x [0..Size oldWorld - 1] st;
       scanGrid oldWorld xs st1
     }"

text \<open>
  processChronon. Its \<open>params\<close> argument is never read and is left out. The result is the
  new world together with the final state (store, remaining draws, ghost log); the old
  world is an argument only, as no statement of the source assigns to one of its cells.
\<close>

definition processChronon ::
  "World \<Rightarrow> Creature list \<Rightarrow> nat list \<Rightarrow> (World \<times> State) option" where
  "processChronon oldWorld h r =
     do {
       w0 \<leftarrow> createWorld (Size oldWorld);
       st \<leftarrow> scanGrid oldWorld [0..Size oldWorld - 1]
               \<lparr>heap = h, newGrid = Grid w0, rng = r, events = []\<rparr>;
       Some (w0\<lparr>Grid := newGrid st, FishBreed := FishBreed oldWorld,
                SharkBreed := SharkBreed oldWorld, Starve := Starve oldWorld\<rparr>, st)
     }"


section \<open>Vocabulary for stating the properties of a chronon\<close>

text \<open>The cells of an \<open>n \<times> n\<close> grid, in the order in which processChronon scans them.\<close>

definition cells :: "int \<Rightarrow> (int \<times> int) list" where
  "cells n = concat (map (\<lambda>x. map (Pair x) [0..n - 1]) [0..n - 1])"

definition inGrid :: "int \<Rightarrow> int \<times> int \<Rightarrow> bool" where
  "inGrid n p \<longleftrightarrow> 0 \<le> fst p \<and> fst p < n \<and> 0 \<le> snd p \<and> snd p < n"

text \<open>The creature a cell refers to; nil for a nil cell and for a position off the grid.\<close>

definition occupant :: "Grid \<Rightarrow> int \<times> int \<Rightarrow> addr option" where
  "occupant g p = (case cellAt g (fst p) (snd p) of None \<Rightarrow> None | Some c \<Rightarrow> c)"

definition put :: "Grid \<Rightarrow> int \<times> int \<Rightarrow> addr option \<Rightarrow> Grid" where
  "put g p v = g[nat (fst p) := (g ! nat (fst p))[nat (snd p) := v]]"

text \<open>A grid as createWorld builds it: \<open>n\<close> columns of \<open>n\<close> cells.\<close>

definition square :: "int \<Rightarrow> Grid \<Rightarrow> bool" where
  "square n g \<longleftrightarrow> 0 \<le> n \<and> length g = nat n \<and> list_all (\<lambda>col. length col = nat n) g"

text \<open>
  The worlds the program builds (createWorld, initializeWorld put every creature on a
  cell of its own, and processChronon keeps it that way): a square grid of the recorded
  size whose occupied cells refer to allocated creatures, no creature being referred to
  from two cells.
\<close>

definition wellFormed :: "World \<Rightarrow> Creature list \<Rightarrow> bool" where
  "wellFormed w h \<longleftrightarrow>
     square (Size w) (Grid w) \<and>
     list_all
       (\<lambda>p. case occupant (Grid w) p of
               None \<Rightarrow> True
             | Some a \<Rightarrow>
                 a < length h \<and>
                 list_all (\<lambda>q. occupant (Grid w) q = Some a \<longrightarrow> q = p) (cells (Size w)))
       (cells (Size w))"

definition holds :: "Species \<Rightarrow> Creature list \<Rightarrow> Grid \<Rightarrow> int \<times> int \<Rightarrow> bool" where
  "holds s h g p = (case occupant g p of None \<Rightarrow> False | Some a \<Rightarrow> Species (h ! a) = s)"

text \<open>The number of creatures of a species in a grid.\<close>

definition population :: "Species \<Rightarrow> Creature list \<Rightarrow> World \<Rightarrow> nat" where
  "population s h w = length (filter (holds s h (Grid w)) (cells (Size w)))"

definition threshold :: "World \<Rightarrow> Species \<Rightarrow> 64 word" where
  "threshold w s = (case s of Fish \<Rightarrow> FishBreed w | Shark \<Rightarrow> SharkBreed w | Empty \<Rightarrow> 0)"

text \<open>
  A destination for a creature at \<open>p\<close>, judged on the old grid: a neighbouring cell that
  is empty or, for a shark, holds a fish.
\<close>

definition validDestination :: "World \<Rightarrow> Creature list \<Rightarrow> Species \<Rightarrow> int \<times> int \<Rightarrow> bool" where
  "validDestination w h s p =
     (case getAdjacentPositions (fst p) (snd p) (Size w) of
        None \<Rightarrow> False
      | Some adj \<Rightarrow>
          list_ex (\<lambda>q. occupant (Grid w) q = None \<or> (s = Shark \<and> holds Fish h (Grid w) q)) adj)"

text \<open>
  An eligible breeder, the way the transition decides it: the breed timer is compared
  with the threshold after this chronon's increment.
\<close>

definition eligibleBreeder :: "World \<Rightarrow> Creature list \<Rightarrow> Species \<Rightarrow> int \<times> int \<Rightarrow> bool" where
  "eligibleBreeder w h s p =
     (case occupant (Grid w) p of
        None \<Rightarrow> False
      | Some a \<Rightarrow> Species (h ! a) = s \<and> threshold w s \<le>s LastBreed (h ! a) + 1
                  \<and> validDestination w h s p)"

definition breeders :: "Species \<Rightarrow> Creature list \<Rightarrow> World \<Rightarrow> nat" where
  "breeders s h w = length (filter (eligibleBreeder w h s) (cells (Size w)))"

text \<open>
  The eligible breeders in the words of the conservation property of the specification:
  the breed timer found in the old grid is at or above the threshold.
\<close>

definition eligibleAsWritten :: "World \<Rightarrow> Creature list \<Rightarrow> Species \<Rightarrow> int \<times> int \<Rightarrow> bool" where
  "eligibleAsWritten w h s p =
     (case occupant (Grid w) p of
        None \<Rightarrow> False
      | Some a \<Rightarrow> Species (h ! a) = s \<and> threshold w s \<le>s LastBreed (h ! a)
                  \<and> validDestination w h s p)"

definition breedersAsWritten :: "Species \<Rightarrow> Creature list \<Rightarrow> World \<Rightarrow> nat" where
  "breedersAsWritten s h w = length (filter (eligibleAsWritten w h s) (cells (Size w)))"

text \<open>The scan of processChronon as one loop over the cells in scan order.\<close>

fun scanCells :: "World \<Rightarrow> (int \<times> int) list \<Rightarrow> State \<Rightarrow> State option" where
  "scanCells oldWorld [] st = Some st"
| "scanCells oldWorld (p # ps) st =
     do { st1 \<leftarrow> visitCell oldWorld (fst p) (snd p) st; scanCells oldWorld ps st1 }"

text \<open>The draw of \<open>rand.Intn m\<close> on the remaining random source.\<close>

definition pick :: "nat \<Rightarrow> nat list \<Rightarrow> nat" where
  "pick m r = (case r of [] \<Rightarrow> 0 | x # xs \<Rightarrow> x mod m)"

text \<open>The creature a breeding parent of species \<open>s\<close> leaves behind.\<close>

definition childOf :: "World \<Rightarrow> Species \<Rightarrow> Creature" where
  "childOf w s =
     \<lparr>Species = s, Age = 0, Energy = (if s = Shark then Starve w else 0), LastBreed = 0\<rparr>"

text \<open>
  What processing the creature \<open>a\<close> found at cell \<open>p\<close> does to the state: its record
  becomes \<open>c'\<close>; it is stored at \<open>dest\<close> (nowhere, when it starved or has the species tag
  Empty); \<open>kid\<close> says whether it bred, the child being allocated at the next free
  address and stored at \<open>p\<close>; \<open>ate\<close> says whether it is a shark that moved onto a fish.
\<close>

definition outcome ::
  "World \<Rightarrow> int \<times> int \<Rightarrow> addr \<Rightarrow> State \<Rightarrow> State \<Rightarrow> Creature \<Rightarrow> (int \<times> int) option \<Rightarrow> bool \<Rightarrow> bool \<Rightarrow> bool"
where
  "outcome w p a st st' c' dest kid ate \<longleftrightarrow>
     heap st' = (heap st)[a := c'] @ (if kid then [childOf w (Species (heap st ! a))] else [])
   \<and> Species c' = Species (heap st ! a)
   \<and> Age c' = Age (heap st ! a) + 1
   \<and> LastBreed c' = (if kid then 0 else LastBreed (heap st ! a) + 1)
   \<and> Energy c' = (if Species (heap st ! a) = Shark
                  then (if ate then Starve w else Energy (heap st ! a) - 1)
                  else Energy (heap st ! a))
   \<and> square (Size w) (newGrid st')
   \<and> (\<forall>r. occupant (newGrid st') r =
            (if dest = Some r then Some a
             else if kid \<and> r = p then Some (length (heap st))
             else occupant (newGrid st) r))
   \<and> events st' = events st
        @ (if dest = None \<and> Species (heap st ! a) = Shark then [Starved a] else [])
        @ (if ate then [Ate a (fst (the dest)) (snd (the dest))] else [])
        @ (if kid then [Bred a (length (heap st))] else [])
   \<and> (dest = None \<longleftrightarrow>
        Species (heap st ! a) = Empty
        \<or> (Species (heap st ! a) = Shark \<and> Energy (heap st ! a) - 1 \<le>s 0))
   \<and> (\<forall>q. dest = Some q \<longrightarrow>
          (q = p \<and> \<not> kid \<and> \<not> ate)
        \<or> (q \<noteq> p \<and> inGrid (Size w) q \<and> occupant (newGrid st) q = None
           \<and> q \<in> set (the (getAdjacentPositions (fst p) (snd p) (Size w)))
           \<and> (if ate then holds Fish (heap st) (Grid w) q else occupant (Grid w) q = None)))
   \<and> (kid \<longrightarrow> dest \<noteq> None \<and> dest \<noteq> Some p
         \<and> threshold w (Species (heap st ! a)) \<le>s LastBreed (heap st ! a) + 1)
   \<and> (ate \<longrightarrow> Species (heap st ! a) = Shark \<and> dest \<noteq> None \<and> dest \<noteq> Some p)"

section \<open>Invariants of the scan\<close>

text \<open>
  The scan is followed through the set \<open>V\<close> of the cells visited so far; \<open>h0\<close> is the
  store at the call. \<open>frame\<close>: the new grid stays square, the store only grows, species
  are fixed, creatures of unvisited cells are untouched, whatever the new grid refers to
  is allocated and is either a child or the creature of a visited cell, no creature is in
  two cells of the new grid, and an unvisited occupied cell whose new-grid cell is taken
  holds a fish and was taken by a shark of the old grid that ate there.
\<close>

definition frame :: "World \<Rightarrow> Creature list \<Rightarrow> (int \<times> int) set \<Rightarrow> State \<Rightarrow> bool" where
  "frame w h0 V st \<longleftrightarrow>
     square (Size w) (newGrid st)
   \<and> length h0 \<le> length (heap st)
   \<and> (\<forall>a<length h0. Species (heap st ! a) = Species (h0 ! a))
   \<and> (\<forall>a<length h0. (\<forall>p\<in>V. occupant (Grid w) p \<noteq> Some a) \<longrightarrow> heap st ! a = h0 ! a)
   \<and> (\<forall>q a. occupant (newGrid st) q = Some a \<longrightarrow>
          a < length (heap st) \<and> (a < length h0 \<longrightarrow> (\<exists>p\<in>V. occupant (Grid w) p = Some a)))
   \<and> (\<forall>q q' a. occupant (newGrid st) q = Some a \<longrightarrow> occupant (newGrid st) q' = Some a \<longrightarrow> q = q')
   \<and> (\<forall>q s. q \<notin> V \<longrightarrow> occupant (newGrid st) q = Some s \<longrightarrow> occupant (Grid w) q \<noteq> None \<longrightarrow>
          holds Fish h0 (Grid w) q \<and> s < length h0 \<and> Species (h0 ! s) = Shark
        \<and> Ate s (fst q) (snd q) \<in> set (events st))"

text \<open>The creature \<open>a\<close> of the unvisited cell \<open>p\<close> is processed, with the given outcome.\<close>

definition processed ::
  "World \<Rightarrow> Creature list \<Rightarrow> (int \<times> int) set \<Rightarrow> int \<times> int \<Rightarrow> addr \<Rightarrow> State \<Rightarrow> State \<Rightarrow>
   Creature \<Rightarrow> (int \<times> int) option \<Rightarrow> bool \<Rightarrow> bool \<Rightarrow> bool" where
  "processed w h0 V p a st st' c' dest kid ate \<longleftrightarrow>
     wellFormed w h0 \<and> frame w h0 V st \<and> p \<notin> V \<and> inGrid (Size w) p
   \<and> occupant (Grid w) p = Some a \<and> occupant (newGrid st) p = None
   \<and> outcome w p a st st' c' dest kid ate"

text \<open>
  What the ghost log says about the state: no assignment hit an occupied cell; a shark
  that ate is an old shark, sits on the fish cell it took and has energy
  \<open>Starve\<close>; a parent and its child are in the new grid with breed timer 0, the child
  freshly allocated; a skipped cell is a visited fish cell whose fish is nowhere in the
  new grid and whose new-grid cell holds the shark that ate there.
\<close>

definition logInv :: "World \<Rightarrow> Creature list \<Rightarrow> (int \<times> int) set \<Rightarrow> State \<Rightarrow> bool" where
  "logInv w h0 V st \<longleftrightarrow>
     (\<forall>x y. Clobbered x y \<notin> set (events st))
   \<and> (\<forall>s x y. Ate s x y \<in> set (events st) \<longrightarrow>
          occupant (newGrid st) (x, y) = Some s \<and> Energy (heap st ! s) = Starve w
        \<and> s < length h0 \<and> holds Fish h0 (Grid w) (x, y) \<and> Species (h0 ! s) = Shark
        \<and> (\<exists>p\<in>V. occupant (Grid w) p = Some s))
   \<and> (\<forall>par c. Bred par c \<in> set (events st) \<longrightarrow>
          (\<exists>q. occupant (newGrid st) q = Some par) \<and> (\<exists>q. occupant (newGrid st) q = Some c)
        \<and> LastBreed (heap st ! par) = 0 \<and> LastBreed (heap st ! c) = 0
        \<and> Species (heap st ! c) = Species (h0 ! par)
        \<and> par < length h0 \<and> length h0 \<le> c \<and> c < length (heap st)
        \<and> (\<exists>p\<in>V. occupant (Grid w) p = Some par))
   \<and> (\<forall>x y. Skipped x y \<in> set (events st) \<longrightarrow>
          (x, y) \<in> V \<and> holds Fish h0 (Grid w) (x, y)
        \<and> (\<forall>f q. occupant (Grid w) (x, y) = Some f \<longrightarrow> occupant (newGrid st) q \<noteq> Some f)
        \<and> (\<exists>s. occupant (newGrid st) (x, y) = Some s \<and> s < length h0
               \<and> Species (h0 ! s) = Shark \<and> Ate s x y \<in> set (events st)))"

text \<open>
  What became of the creature \<open>a\<close> of a visited cell \<open>p\<close>: it was skipped, untouched and
  absent from the new grid, or it was processed: one chronon older and, for a shark, with
  its energy decremented (and absent when that left no energy) or reset by a meal.
\<close>

definition fate :: "World \<Rightarrow> Creature list \<Rightarrow> State \<Rightarrow> int \<times> int \<Rightarrow> addr \<Rightarrow> bool" where
  "fate w h0 st p a \<longleftrightarrow>
     (heap st ! a = h0 ! a \<and> Skipped (fst p) (snd p) \<in> set (events st)
        \<and> (\<forall>q. occupant (newGrid st) q \<noteq> Some a))
   \<or> (Age (heap st ! a) = Age (h0 ! a) + 1
      \<and> (Species (h0 ! a) = Shark \<longrightarrow>
           (if Energy (h0 ! a) - 1 \<le>s 0
            then Energy (heap st ! a) = Energy (h0 ! a) - 1
                 \<and> (\<forall>q. occupant (newGrid st) q \<noteq> Some a)
            else Energy (heap st ! a) = Energy (h0 ! a) - 1
                 \<or> Energy (heap st ! a) = Starve w)))"

definition fateInv :: "World \<Rightarrow> Creature list \<Rightarrow> (int \<times> int) set \<Rightarrow> State \<Rightarrow> bool" where
  "fateInv w h0 V st \<longleftrightarrow> (\<forall>p\<in>V. \<forall>a. occupant (Grid w) p = Some a \<longrightarrow> fate w h0 st p a)"

text \<open>Every shark of the new grid has positive energy.\<close>

definition energyInv :: "State \<Rightarrow> bool" where
  "energyInv st \<longleftrightarrow>
     (\<forall>q s. occupant (newGrid st) q = Some s \<longrightarrow> Species (heap st ! s) = Shark \<longrightarrow>
            0 <s Energy (heap st ! s))"

text \<open>
  The cells of the new grid that hold a creature of the old grid, and those that hold a
  creature allocated during the scan; there are at most as many of the first kind as
  visited cells of the species, and of the second kind as visited eligible breeders.
\<close>

definition settled :: "Species \<Rightarrow> Creature list \<Rightarrow> State \<Rightarrow> (int \<times> int) set" where
  "settled s h0 st =
     {q. \<exists>a. occupant (newGrid st) q = Some a \<and> a < length h0 \<and> Species (h0 ! a) = s}"

definition born :: "Species \<Rightarrow> Creature list \<Rightarrow> State \<Rightarrow> (int \<times> int) set" where
  "born s h0 st =
     {q. \<exists>a. occupant (newGrid st) q = Some a \<and> length h0 \<le> a \<and> Species (heap st ! a) = s}"

definition countInv :: "World \<Rightarrow> Creature list \<Rightarrow> (int \<times> int) set \<Rightarrow> State \<Rightarrow> bool" where
  "countInv w h0 V st \<longleftrightarrow>
     finite V
   \<and> (\<forall>s. card (settled s h0 st) \<le> card {p \<in> V. holds s h0 (Grid w) p}
         \<and> card (born s h0 st) \<le> card {p \<in> V. eligibleBreeder w h0 s p})"

definition scanInv :: "World \<Rightarrow> Creature list \<Rightarrow> (int \<times> int) set \<Rightarrow> State \<Rightarrow> bool" where
  "scanInv w h0 V st \<longleftrightarrow>
     frame w h0 V st \<and> logInv w h0 V st \<and> fateInv w h0 V st \<and> countInv w h0 V st
   \<and> (1 \<le>s Starve w \<longrightarrow> energyInv st)"

text \<open>The number of creatures of a species in a grid that were allocated after \<open>h0\<close>.\<close>

definition offspring :: "Species \<Rightarrow> Creature list \<Rightarrow> Creature list \<Rightarrow> World \<Rightarrow> nat" where
  "offspring s h0 h w =
     length (filter (\<lambda>q. case occupant (Grid w) q of
                            None \<Rightarrow> False
                          | Some a \<Rightarrow> length h0 \<le> a \<and> Species (h ! a) = s)
                    (cells (Size w)))"

text \<open>
  A small world for instantiating the theorems: a 2 by 2 pond with a shark at (0,0), a fish
  at (1,0) and the thresholds of the program's \<open>main\<close>.
\<close>

definition pond :: World where
  "pond = \<lparr>Grid = [[Some 0, None], [Some 1, None]], Size = 2, FishBreed = 3,
           SharkBreed = 10, Starve = 5\<rparr>"

definition pondCreatures :: "Creature list" where
  "pondCreatures = [\<lparr>Species = Shark, Age = 0, Energy = 5, LastBreed = 0\<rparr>,
                    \<lparr>Species = Fish, Age = 0, Energy = 0, LastBreed = 0\<rparr>]"

section \<open>The adjacency resolver\<close>

lemma go_rem_mod: "0 \<le> a \<Longrightarrow> 0 < b \<Longrightarrow> go_rem a b = a mod b"
  by (cases "a = 0") (simp_all add: go_rem_def)

lemma mod_pred_wrap:
  assumes "0 \<le> (x::int)" "x < sz"
  shows "(x - 1 + sz) mod sz = (if x = 0 then sz - 1 else x - 1)"
proof (cases "x = 0")
  case True
  have "(sz - 1) mod sz = sz - 1"
    by (rule mod_pos_pos_trivial) (use assms in simp_all)
  moreover have "x - 1 + sz = sz - 1" using True by simp
  ultimately show ?thesis using True by simp
next
  case False
  have "(x - 1 + sz) mod sz = (x - 1) mod sz" by simp
  also have "\<dots> = x - 1"
    by (rule mod_pos_pos_trivial) (use assms False in simp_all)
  finally show ?thesis using False by simp
qed

lemma mod_succ_wrap:
  assumes "0 \<le> (x::int)" "x < sz"
  shows "(x + 1) mod sz = (if x = sz - 1 then 0 else x + 1)"
proof (cases "x = sz - 1")
  case True
  then have "x + 1 = sz" by simp
  then show ?thesis using True by simp
next
  case False
  have "(x + 1) mod sz = x + 1"
    by (rule mod_pos_pos_trivial) (use assms False in simp_all)
  with False show ?thesis by simp
qed

lemma getAdjacentPositions_mod:
  assumes "0 \<le> x" "x < sz" "0 \<le> y" "y < sz"
  shows "getAdjacentPositions x y sz =
           Some [((x - 1 + sz) mod sz, y), ((x + 1) mod sz, y),
                 (x, (y - 1 + sz) mod sz), (x, (y + 1) mod sz)]"
  using assms by (simp add: getAdjacentPositions_def go_rem_mod)

lemma getAdjacentPositions_wrap:
  assumes "0 \<le> x" "x < sz" "0 \<le> y" "y < sz"
  shows "getAdjacentPositions x y sz =
           Some [(if x = 0 then sz - 1 else x - 1, y), (if x = sz - 1 then 0 else x + 1, y),
                 (x, if y = 0 then sz - 1 else y - 1), (x, if y = sz - 1 then 0 else y + 1)]"
  unfolding getAdjacentPositions_mod [OF assms]
    mod_pred_wrap [OF assms(1,2)] mod_pred_wrap [OF assms(3,4)]
    mod_succ_wrap [OF assms(1,2)] mod_succ_wrap [OF assms(3,4)] ..

section \<open>Grids, well-formed worlds and the primitive operations\<close>

lemma set_cells: "set (cells n) = {p. inGrid n p}"
  by (auto simp: cells_def inGrid_def)

lemma distinct_cells: "distinct (cells n)"
  unfolding cells_def
  by (auto intro!: distinct_concat simp: distinct_map inj_on_def)

lemma square_column:
  "square n g \<Longrightarrow> 0 \<le> x \<Longrightarrow> x < n \<Longrightarrow> nat x < length g \<and> length (g ! nat x) = nat n"
  by (auto simp: square_def list_all_length)

lemma square_cellAt:
  "square n g \<Longrightarrow> inGrid n (x, y) \<Longrightarrow> cellAt g x y = Some (occupant g (x, y))"
  using square_column [of n g x]
  by (auto simp: inGrid_def occupant_def cellAt_def)

lemma occupant_outside: "square n g \<Longrightarrow> \<not> inGrid n p \<Longrightarrow> occupant g p = None"
  by (auto simp: inGrid_def occupant_def cellAt_def square_def list_all_length)

lemma occupant_Some_inGrid: "square n g \<Longrightarrow> occupant g p = Some a \<Longrightarrow> inGrid n p"
  using occupant_outside [of n g p] by auto

lemma setCell_put:
  "square n g \<Longrightarrow> inGrid n (x, y) \<Longrightarrow> setCell g x y v = Some (put g (x, y) v)"
  using square_column [of n g x]
  by (auto simp: inGrid_def setCell_def put_def)

lemma square_put: "square n g \<Longrightarrow> square n (put g p v)"
  by (cases "nat (fst p) < length g") (auto simp: square_def put_def list_all_length nth_list_update)

lemma occupant_put:
  assumes "square n g" "inGrid n p"
  shows "occupant (put g p v) r = (if r = p then v else occupant g r)"
proof (cases "inGrid n r")
  case False
  then have "r \<noteq> p" using assms by auto
  with False show ?thesis
    using occupant_outside [OF square_put [OF assms(1)] False] occupant_outside [OF assms(1) False]
    by simp
next
  case True
  obtain x y where p: "p = (x, y)" by (cases p)
  obtain x' y' where r: "r = (x', y')" by (cases r)
  have 1: "nat x < length g" "length (g ! nat x) = nat n" "nat x' < length g" "length (g ! nat x') = nat n"
    using square_column [OF assms(1), of x] square_column [OF assms(1), of x'] assms(2) True
    by (auto simp: p r inGrid_def)
  have 2: "0 \<le> x" "0 \<le> y" "0 \<le> x'" "0 \<le> y'" "x < n" "y < n" "x' < n" "y' < n"
    using assms(2) True by (auto simp: p r inGrid_def)
  have e: "nat x' = nat x \<longleftrightarrow> x' = x" "nat y' = nat y \<longleftrightarrow> y' = y"
    "nat x = nat x' \<longleftrightarrow> x' = x" "nat y = nat y' \<longleftrightarrow> y' = y" using 2 by auto
  show ?thesis
    using 1 2 e
    by (simp add: p r occupant_def cellAt_def put_def nth_list_update)
qed

lemma square_replicate: "0 \<le> n \<Longrightarrow> square n (replicate (nat n) (replicate (nat n) None))"
  by (simp add: square_def list_all_length)

lemma occupant_replicate: "occupant (replicate (nat n) (replicate (nat n) None)) p = None"
  by (auto simp: occupant_def cellAt_def)

lemma wf_square: "wellFormed w h \<Longrightarrow> square (Size w) (Grid w)"
  by (simp add: wellFormed_def)

lemma wf_cell:
  assumes wf: "wellFormed w h" and o: "occupant (Grid w) p = Some a"
  shows "a < length h \<and> (\<forall>q. occupant (Grid w) q = Some a \<longrightarrow> q = p)"
proof -
  have sq: "square (Size w) (Grid w)" using wf by (simp add: wellFormed_def)
  have "\<forall>p\<in>set (cells (Size w)).
          case occupant (Grid w) p of
            None \<Rightarrow> True
          | Some a \<Rightarrow> a < length h \<and>
              (\<forall>q\<in>set (cells (Size w)). occupant (Grid w) q = Some a \<longrightarrow> q = p)"
    using wf unfolding wellFormed_def list_all_iff by blast
  moreover have "p \<in> set (cells (Size w))"
    using occupant_Some_inGrid [OF sq o] by (simp add: set_cells)
  ultimately have *: "a < length h \<and>
      (\<forall>q\<in>set (cells (Size w)). occupant (Grid w) q = Some a \<longrightarrow> q = p)"
    using o by fastforce
  have "q = p" if "occupant (Grid w) q = Some a" for q
  proof -
    have "q \<in> set (cells (Size w))"
      using occupant_Some_inGrid [OF sq that] by (simp add: set_cells)
    with * that show ?thesis by blast
  qed
  with * show ?thesis by blast
qed

lemma wf_bound: "wellFormed w h \<Longrightarrow> occupant (Grid w) p = Some a \<Longrightarrow> a < length h"
  using wf_cell by blast

lemma wf_inj:
  "wellFormed w h \<Longrightarrow> occupant (Grid w) p = Some a \<Longrightarrow> occupant (Grid w) q = Some a \<Longrightarrow> q = p"
  using wf_cell by blast

lemma pick_less: "0 < m \<Longrightarrow> pick m r < m"
  by (cases r) (simp_all add: pick_def)

lemma Intn_run:
  "0 < m \<Longrightarrow> Intn (int m) st = Some (int (pick m (rng st)), st\<lparr>rng := tl (rng st)\<rparr>)"
  by (cases "rng st") (simp_all add: Intn_def pick_def)

lemma gatherEmpty_run:
  assumes "square n og" "square n ng"
  shows "\<forall>q\<in>set adj. inGrid n q \<Longrightarrow>
     gatherEmpty og ng adj = Some (filter (\<lambda>q. occupant og q = None \<and> occupant ng q = None) adj)"
proof (induction adj)
  case Nil
  then show ?case by simp
next
  case (Cons q adj)
  have q: "inGrid n (fst q, snd q)" using Cons.prems by simp
  have ih: "gatherEmpty og ng adj =
     Some (filter (\<lambda>q. occupant og q = None \<and> occupant ng q = None) adj)"
    using Cons by simp
  show ?case
    by (simp add: ih square_cellAt [OF assms(1) q] square_cellAt [OF assms(2) q])
qed

lemma gatherFish_run:
  assumes "square n og" "square n ng" "\<And>p a. occupant og p = Some a \<Longrightarrow> a < length h"
  shows "\<forall>q\<in>set adj. inGrid n q \<Longrightarrow>
     gatherFish h og ng adj = Some (filter (\<lambda>q. holds Fish h og q \<and> occupant ng q = None) adj)"
proof (induction adj)
  case Nil
  then show ?case by simp
next
  case (Cons q adj)
  have q: "inGrid n (fst q, snd q)" using Cons.prems by simp
  have ih: "gatherFish h og ng adj =
     Some (filter (\<lambda>q. holds Fish h og q \<and> occupant ng q = None) adj)"
    using Cons by simp
  show ?case
  proof (cases "occupant og q")
    case None
    then show ?thesis
      by (simp add: ih square_cellAt [OF assms(1) q] holds_def)
  next
    case (Some b)
    then have "b < length h" by (rule assms(3))
    with Some show ?thesis
      by (simp add: ih square_cellAt [OF assms(1) q] square_cellAt [OF assms(2) q]
          holds_def deref_def)
  qed
qed

lemma place_run:
  assumes "square n (newGrid st)" "inGrid n (x, y)" "occupant (newGrid st) (x, y) = None"
  shows "place x y a st = Some (st\<lparr>newGrid := put (newGrid st) (x, y) (Some a)\<rparr>)"
  using square_cellAt [OF assms(1,2)] setCell_put [OF assms(1,2)] assms(3)
  by (simp add: place_def)

lemma adjacent_inGrid:
  assumes "inGrid n (x, y)"
  shows "\<exists>adj. getAdjacentPositions x y n = Some adj \<and> (\<forall>q\<in>set adj. inGrid n q)"
proof -
  have r: "0 \<le> x" "x < n" "0 \<le> y" "y < n" using assms by (simp_all add: inGrid_def)
  show ?thesis
    unfolding getAdjacentPositions_wrap [OF r]
    using r by (auto simp: inGrid_def)
qed

section \<open>The claims about the adjacency resolver\<close>






section \<open>One step of the scan\<close>

lemma breed_run:
  assumes sq: "square n (newGrid st)" and p: "inGrid n (x, y)" and q: "inGrid n q"
    and ne: "q \<noteq> (x, y)" and np: "occupant (newGrid st) (x, y) = None"
    and nq: "occupant (newGrid st) q = None"
  shows "(case alloc cr st of
            (child, st2) \<Rightarrow>
              do {
                st3 \<leftarrow> place x y child st2;
                st4 \<leftarrow> place (fst q) (snd q) a st3;
                Some (st4\<lparr>heap := (heap st4)[a := c'], events := events st4 @ [Bred a child]\<rparr>)
              }) =
         Some (st\<lparr>heap := (heap st @ [cr])[a := c'],
                  newGrid := put (put (newGrid st) (x, y) (Some (length (heap st)))) q (Some a),
                  events := events st @ [Bred a (length (heap st))]\<rparr>)"
proof -
  let ?st2 = "st\<lparr>heap := heap st @ [cr]\<rparr>"
  let ?k = "length (heap st)"
  have 1: "place x y ?k ?st2 = Some (?st2\<lparr>newGrid := put (newGrid st) (x, y) (Some ?k)\<rparr>)"
    using place_run [of n ?st2 x y ?k] sq p np by simp
  let ?st3 = "?st2\<lparr>newGrid := put (newGrid st) (x, y) (Some ?k)\<rparr>"
  have "occupant (newGrid ?st3) (fst q, snd q) = None"
    using occupant_put [OF sq p, of "Some ?k" q] ne nq by simp
  then have 2: "place (fst q) (snd q) a ?st3 =
      Some (?st3\<lparr>newGrid := put (newGrid ?st3) q (Some a)\<rparr>)"
    using place_run [of n ?st3 "fst q" "snd q" a] square_put [OF sq] q by simp
  show ?thesis
    by (simp add: alloc_def 1 2)
qed


lemma processFish_outcome:
  assumes sqO: "square (Size w) (Grid w)" and sqN: "square (Size w) (newGrid st)"
    and p: "inGrid (Size w) (x, y)" and op: "occupant (Grid w) (x, y) = Some a"
    and np: "occupant (newGrid st) (x, y) = None" and a: "a < length (heap st)"
    and fish: "Species (heap st ! a) = Fish"
    and c1: "c1 = (heap st ! a)\<lparr>Age := Age (heap st ! a) + 1,
                                 LastBreed := LastBreed (heap st ! a) + 1\<rparr>"
  shows "\<exists>st' c' dest kid.
           processFish w x y a (st\<lparr>heap := (heap st)[a := c1]\<rparr>) = Some st'
         \<and> outcome w (x, y) a st st' c' dest kid False"
proof -
  let ?n = "Size w"
  let ?st1 = "st\<lparr>heap := (heap st)[a := c1]\<rparr>"
  obtain adj where adj: "getAdjacentPositions x y ?n = Some adj"
    and adjG: "\<forall>q\<in>set adj. inGrid ?n q"
    using adjacent_inGrid [OF p] by blast
  define E where "E = filter (\<lambda>q. occupant (Grid w) q = None \<and> occupant (newGrid st) q = None) adj"
  have ge: "gatherEmpty (Grid w) (newGrid st) adj = Some E"
    unfolding E_def using gatherEmpty_run [OF sqO sqN adjG] .
  show ?thesis
  proof (cases "E = []")
    case True
    have run: "processFish w x y a ?st1 = Some (?st1\<lparr>newGrid := put (newGrid st) (x, y) (Some a)\<rparr>)"
      using place_run [of ?n ?st1 x y a] sqN p np
      by (simp add: processFish_def adj ge True)
    have "outcome w (x, y) a st (?st1\<lparr>newGrid := put (newGrid st) (x, y) (Some a)\<rparr>)
            c1 (Some (x, y)) False False"
      unfolding outcome_def
      using fish square_put [OF sqN] occupant_put [OF sqN p]
      by (simp add: c1)
    with run show ?thesis by blast
  next
    case False
    define m where "m = length E"
    define q where "q = E ! pick m (rng st)"
    have m: "0 < m" using False by (simp add: m_def)
    have "q \<in> set E" unfolding q_def using pick_less [OF m] by (simp add: m_def)
    then have qa: "q \<in> set adj" and qo: "occupant (Grid w) q = None"
      and qn: "occupant (newGrid st) q = None"
      by (simp_all add: E_def)
    have qG: "inGrid ?n q" using adjG qa by blast
    have ne: "q \<noteq> (x, y)" using qo op by auto
    let ?st1b = "?st1\<lparr>rng := tl (rng st)\<rparr>"
    have intn: "Intn (int (length E)) ?st1 = Some (int (pick m (rng st)), ?st1b)"
      using Intn_run [OF m, of ?st1] by (simp add: m_def)
    have dr: "deref ((heap st)[a := c1]) a = Some c1" using a by (simp add: deref_def)
    have Eq: "E ! pick m (rng st) = q" by (simp add: q_def)
    show ?thesis
    proof (cases "FishBreed w \<le>s LastBreed c1")
      case True
      let ?st' = "?st1b\<lparr>heap := (heap ?st1b @ [\<lparr>Species = Fish, Age = 0, Energy = 0, LastBreed = 0\<rparr>])
                                  [a := c1\<lparr>LastBreed := 0\<rparr>],
                  newGrid := put (put (newGrid ?st1b) (x, y) (Some (length (heap ?st1b)))) q (Some a),
                  events := events ?st1b @ [Bred a (length (heap ?st1b))]\<rparr>"
      have run: "processFish w x y a ?st1 = Some ?st'"
        unfolding processFish_def
        using sqN p qG ne np qn
        by (simp add: adj ge False intn dr True Eq breed_run [where n = ?n])
      have "outcome w (x, y) a st ?st' (c1\<lparr>LastBreed := 0\<rparr>) (Some q) True False"
        unfolding outcome_def
        using fish a ne qG qn qo qa True square_put [OF square_put [OF sqN]]
          occupant_put [OF square_put [OF sqN] qG] occupant_put [OF sqN p]
        by (simp add: c1 adj list_update_append1 childOf_def threshold_def)
      with run show ?thesis by blast
    next
      case nb: False
      let ?st' = "?st1b\<lparr>newGrid := put (newGrid st) q (Some a)\<rparr>"
      have run: "processFish w x y a ?st1 = Some ?st'"
        using place_run [of ?n ?st1b "fst q" "snd q" a] sqN qG qn
        by (simp add: processFish_def adj ge False intn dr nb Eq)
      have "outcome w (x, y) a st ?st' c1 (Some q) False False"
        unfolding outcome_def
        using fish a ne qG qn qo qa square_put [OF sqN] occupant_put [OF sqN qG]
        by (simp add: c1 adj)
      with run show ?thesis by blast
    qed
  qed
qed


lemma holds_update_same_species:
  "Species c' = Species (h ! a) \<Longrightarrow> a < length h \<Longrightarrow> holds s (h[a := c']) g q = holds s h g q"
  by (auto simp: holds_def nth_list_update split: option.splits)

lemma processShark_outcome:
  assumes sqO: "square (Size w) (Grid w)" and sqN: "square (Size w) (newGrid st)"
    and p: "inGrid (Size w) (x, y)" and op: "occupant (Grid w) (x, y) = Some a"
    and np: "occupant (newGrid st) (x, y) = None" and a: "a < length (heap st)"
    and bound: "\<And>r b. occupant (Grid w) r = Some b \<Longrightarrow> b < length (heap st)"
    and shark: "Species (heap st ! a) = Shark"
    and c1: "c1 = (heap st ! a)\<lparr>Age := Age (heap st ! a) + 1,
                                 LastBreed := LastBreed (heap st ! a) + 1\<rparr>"
  shows "\<exists>st' c' dest kid ate.
           processShark w x y a (st\<lparr>heap := (heap st)[a := c1]\<rparr>) = Some st'
         \<and> outcome w (x, y) a st st' c' dest kid ate"
proof -
  let ?n = "Size w"
  let ?st1 = "st\<lparr>heap := (heap st)[a := c1]\<rparr>"
  let ?s1 = "c1\<lparr>Energy := Energy c1 - 1\<rparr>"
  let ?sta = "st\<lparr>heap := (heap st)[a := ?s1]\<rparr>"
  have dr: "deref ((heap st)[a := c1]) a = Some c1" using a by (simp add: deref_def)
  have s1E: "Energy c1 - 1 = Energy (heap st ! a) - 1" by (simp add: c1)
  have s1S: "Species ?s1 = Shark" using shark by (simp add: c1)
  show ?thesis
  proof (cases "Energy c1 - 1 \<le>s 0")
    case True
    let ?st' = "?sta\<lparr>events := events st @ [Starved a]\<rparr>"
    have run: "processShark w x y a ?st1 = Some ?st'"
      unfolding processShark_def using True by (simp add: dr)
    have "outcome w (x, y) a st ?st' ?s1 None False False"
      unfolding outcome_def using shark True sqN by (simp add: s1E [symmetric]) (simp add: c1)
    with run show ?thesis by blast
  next
    case alive: False
    obtain adj where adj: "getAdjacentPositions x y ?n = Some adj"
      and adjG: "\<forall>q\<in>set adj. inGrid ?n q"
      using adjacent_inGrid [OF p] by blast
    define F where "F = filter (\<lambda>q. holds Fish (heap st) (Grid w) q \<and> occupant (newGrid st) q = None) adj"
    define E where "E = filter (\<lambda>q. occupant (Grid w) q = None \<and> occupant (newGrid st) q = None) adj"
    have hs: "holds Fish ((heap st)[a := ?s1]) (Grid w) = holds Fish (heap st) (Grid w)"
      using holds_update_same_species [of ?s1 "heap st" a Fish "Grid w"] a s1S shark by auto
    have gf: "gatherFish ((heap st)[a := ?s1]) (Grid w) (newGrid st) adj = Some F"
      unfolding F_def using gatherFish_run [OF sqO sqN _ adjG, of "(heap st)[a := ?s1]"] bound
      by (simp add: hs)
    have ge: "gatherEmpty (Grid w) (newGrid st) adj = Some E"
      unfolding E_def using gatherEmpty_run [OF sqO sqN adjG] .
    show ?thesis
    proof (cases "F = []")
      case hunt: False
      define m where "m = length F"
      define q where "q = F ! pick m (rng st)"
      have m: "0 < m" using hunt by (simp add: m_def)
      have "q \<in> set F" unfolding q_def using pick_less [OF m] by (simp add: m_def)
      then have qa: "q \<in> set adj" and qo: "holds Fish (heap st) (Grid w) q"
        and qn: "occupant (newGrid st) q = None"
        by (simp_all add: F_def)
      have qG: "inGrid ?n q" using adjG qa by blast
      have ne: "q \<noteq> (x, y)" using qo op shark by (auto simp: holds_def)
      have intn: "Intn (int (length F)) ?sta = Some (int (pick m (rng st)), ?sta\<lparr>rng := tl (rng st)\<rparr>)"
        using Intn_run [OF m, of ?sta] by (simp add: m_def)
      have Fq: "F ! pick m (rng st) = q" by (simp add: q_def)
      let ?s2 = "c1\<lparr>Energy := Starve w\<rparr>"
      let ?stc = "st\<lparr>heap := (heap st)[a := ?s2], rng := tl (rng st),
                     events := events st @ [Ate a (fst q) (snd q)]\<rparr>"
      show ?thesis
      proof (cases "SharkBreed w \<le>s LastBreed c1")
        case True
        let ?st' = "?stc\<lparr>heap := (heap ?stc @ [\<lparr>Species = Shark, Age = 0, Energy = Starve w, LastBreed = 0\<rparr>])
                                  [a := ?s2\<lparr>LastBreed := 0\<rparr>],
                  newGrid := put (put (newGrid st) (x, y) (Some (length (heap st)))) q (Some a),
                  events := events ?stc @ [Bred a (length (heap st))]\<rparr>"
        have run: "processShark w x y a ?st1 = Some ?st'"
          unfolding processShark_def
          using sqN p qG ne np qn alive True hunt
          by (simp add: dr adj gf intn Fq
              breed_run [where n = ?n])
        have "outcome w (x, y) a st ?st' (?s2\<lparr>LastBreed := 0\<rparr>) (Some q) True True"
          unfolding outcome_def
          using shark a ne qG qn qo qa True alive square_put [OF square_put [OF sqN]]
            occupant_put [OF square_put [OF sqN] qG] occupant_put [OF sqN p]
          by (simp add: s1E [symmetric]) (simp add: c1 adj list_update_append1 childOf_def threshold_def)
        with run show ?thesis by blast
      next
        case nb: False
        let ?st' = "?stc\<lparr>newGrid := put (newGrid st) q (Some a)\<rparr>"
        have run: "processShark w x y a ?st1 = Some ?st'"
          unfolding processShark_def
          using sqN qG qn alive nb hunt
          by (simp add: dr adj gf intn Fq place_run [where n = ?n])
        have "outcome w (x, y) a st ?st' ?s2 (Some q) False True"
          unfolding outcome_def
          using shark a ne qG qn qo qa alive square_put [OF sqN] occupant_put [OF sqN qG]
          by (simp add: s1E [symmetric]) (simp add: c1 adj)
        with run show ?thesis by blast
      qed
    next
      case nofish: True
      show ?thesis
      proof (cases "E = []")
        case True
        let ?st' = "?sta\<lparr>newGrid := put (newGrid st) (x, y) (Some a)\<rparr>"
        have run: "processShark w x y a ?st1 = Some ?st'"
          unfolding processShark_def
          using sqN p np alive nofish True
          by (simp add: dr adj gf ge place_run [where n = ?n])
        have "outcome w (x, y) a st ?st' ?s1 (Some (x, y)) False False"
          unfolding outcome_def
          using shark a alive square_put [OF sqN] occupant_put [OF sqN p]
          by (simp add: s1E [symmetric]) (simp add: c1)
        with run show ?thesis by blast
      next
        case False
        define m where "m = length E"
        define q where "q = E ! pick m (rng st)"
        have m: "0 < m" using False by (simp add: m_def)
        have "q \<in> set E" unfolding q_def using pick_less [OF m] by (simp add: m_def)
        then have qa: "q \<in> set adj" and qo: "occupant (Grid w) q = None"
          and qn: "occupant (newGrid st) q = None"
          by (simp_all add: E_def)
        have qG: "inGrid ?n q" using adjG qa by blast
        have ne: "q \<noteq> (x, y)" using qo op by auto
        let ?stb = "?sta\<lparr>rng := tl (rng st)\<rparr>"
        have intn: "Intn (int (length E)) ?sta = Some (int (pick m (rng st)), ?stb)"
          using Intn_run [OF m, of ?sta] by (simp add: m_def)
        have Eq: "E ! pick m (rng st) = q" by (simp add: q_def)
        show ?thesis
        proof (cases "SharkBreed w \<le>s LastBreed c1")
          case True
          let ?st' = "?stb\<lparr>heap := (heap ?stb @ [\<lparr>Species = Shark, Age = 0, Energy = Starve w, LastBreed = 0\<rparr>])
                                  [a := ?s1\<lparr>LastBreed := 0\<rparr>],
                  newGrid := put (put (newGrid st) (x, y) (Some (length (heap st)))) q (Some a),
                  events := events st @ [Bred a (length (heap st))]\<rparr>"
          have run: "processShark w x y a ?st1 = Some ?st'"
            unfolding processShark_def
            using sqN p qG ne np qn alive True nofish False
            by (simp add: dr adj gf ge intn Eq breed_run [where n = ?n])
          have "outcome w (x, y) a st ?st' (?s1\<lparr>LastBreed := 0\<rparr>) (Some q) True False"
            unfolding outcome_def
            using shark a ne qG qn qo qa True alive square_put [OF square_put [OF sqN]]
              occupant_put [OF square_put [OF sqN] qG] occupant_put [OF sqN p]
            by (simp add: s1E [symmetric]) (simp add: c1 adj list_update_append1 childOf_def threshold_def)
          with run show ?thesis by blast
        next
          case nb: False
          let ?st' = "?stb\<lparr>newGrid := put (newGrid st) q (Some a)\<rparr>"
          have run: "processShark w x y a ?st1 = Some ?st'"
            unfolding processShark_def
            using sqN qG qn alive nb nofish False
            by (simp add: dr adj gf ge intn Eq place_run [where n = ?n])
          have "outcome w (x, y) a st ?st' ?s1 (Some q) False False"
            unfolding outcome_def
            using shark a ne qG qn qo qa alive square_put [OF sqN] occupant_put [OF sqN qG]
            by (simp add: s1E [symmetric]) (simp add: c1 adj)
          with run show ?thesis by blast
        qed
      qed
    qed
  qed
qed


lemma visitCell_cases:
  assumes sqO: "square (Size w) (Grid w)" and sqN: "square (Size w) (newGrid st)"
    and p: "inGrid (Size w) (x, y)"
    and bound: "\<And>r b. occupant (Grid w) r = Some b \<Longrightarrow> b < length (heap st)"
  shows "(occupant (Grid w) (x, y) = None \<and> visitCell w x y st = Some st)
       \<or> (\<exists>a. occupant (Grid w) (x, y) = Some a \<and> occupant (newGrid st) (x, y) \<noteq> None
              \<and> visitCell w x y st = Some (st\<lparr>events := events st @ [Skipped x y]\<rparr>))
       \<or> (\<exists>a st' c' dest kid ate.
              occupant (Grid w) (x, y) = Some a \<and> occupant (newGrid st) (x, y) = None
            \<and> visitCell w x y st = Some st' \<and> outcome w (x, y) a st st' c' dest kid ate)"
proof (cases "occupant (Grid w) (x, y)")
  case None
  then show ?thesis
    by (simp add: visitCell_def square_cellAt [OF sqO p])
next
  case (Some a)
  show ?thesis
  proof (cases "occupant (newGrid st) (x, y)")
    case occ: (Some b)
    then show ?thesis
      using Some by (simp add: visitCell_def square_cellAt [OF sqO p] square_cellAt [OF sqN p])
  next
    case None
    have a: "a < length (heap st)" using bound Some by blast
    define c1 where "c1 = (heap st ! a)\<lparr>Age := Age (heap st ! a) + 1,
                                 LastBreed := LastBreed (heap st ! a) + 1\<rparr>"
    have dr: "deref (heap st) a = Some (heap st ! a)" using a by (simp add: deref_def)
    have v: "visitCell w x y st =
         (case Species (heap st ! a) of
            Empty \<Rightarrow> Some (st\<lparr>heap := (heap st)[a := c1]\<rparr>)
          | Fish \<Rightarrow> processFish w x y a (st\<lparr>heap := (heap st)[a := c1]\<rparr>)
          | Shark \<Rightarrow> processShark w x y a (st\<lparr>heap := (heap st)[a := c1]\<rparr>))"
      unfolding c1_def
      by (simp add: visitCell_def square_cellAt [OF sqO p] square_cellAt [OF sqN p] Some None dr)
    have "\<exists>st' c' dest kid ate. visitCell w x y st = Some st'
            \<and> outcome w (x, y) a st st' c' dest kid ate"
    proof (cases "Species (heap st ! a)")
      case Empty
      have "outcome w (x, y) a st (st\<lparr>heap := (heap st)[a := c1]\<rparr>) c1 None False False"
        unfolding outcome_def using Empty sqN by (simp add: c1_def)
      moreover have "visitCell w x y st = Some (st\<lparr>heap := (heap st)[a := c1]\<rparr>)"
        using v Empty by simp
      ultimately show ?thesis by blast
    next
      case Fish
      obtain st' c' dest kid where
        r: "processFish w x y a (st\<lparr>heap := (heap st)[a := c1]\<rparr>) = Some st'"
        and o: "outcome w (x, y) a st st' c' dest kid False"
        using processFish_outcome [OF sqO sqN p Some None a Fish c1_def] by blast
      have "visitCell w x y st = Some st'" using v Fish r by simp
      with o show ?thesis by blast
    next
      case Shark
      obtain st' c' dest kid ate where
        r: "processShark w x y a (st\<lparr>heap := (heap st)[a := c1]\<rparr>) = Some st'"
        and o: "outcome w (x, y) a st st' c' dest kid ate"
        using processShark_outcome [OF sqO sqN p Some None a _ Shark c1_def] bound by blast
      have "visitCell w x y st = Some st'" using v Shark r by simp
      with o show ?thesis by blast
    qed
    then show ?thesis using Some None by blast
  qed
qed

section \<open>The frame invariant is kept by every step\<close>

lemma frame_square: "frame w h0 V st \<Longrightarrow> square (Size w) (newGrid st)"
  by (simp add: frame_def)

lemma frame_length: "frame w h0 V st \<Longrightarrow> length h0 \<le> length (heap st)"
  by (simp add: frame_def)

lemma frame_species: "frame w h0 V st \<Longrightarrow> a < length h0 \<Longrightarrow> Species (heap st ! a) = Species (h0 ! a)"
  by (simp add: frame_def)

lemma frame_untouched:
  "frame w h0 V st \<Longrightarrow> a < length h0 \<Longrightarrow> \<forall>p\<in>V. occupant (Grid w) p \<noteq> Some a \<Longrightarrow> heap st ! a = h0 ! a"
  by (simp add: frame_def)

lemma frame_placed:
  "frame w h0 V st \<Longrightarrow> occupant (newGrid st) q = Some a \<Longrightarrow>
     a < length (heap st) \<and> (a < length h0 \<longrightarrow> (\<exists>p\<in>V. occupant (Grid w) p = Some a))"
  unfolding frame_def by blast

lemma frame_inj:
  "frame w h0 V st \<Longrightarrow> occupant (newGrid st) q = Some a \<Longrightarrow> occupant (newGrid st) q' = Some a \<Longrightarrow> q = q'"
  unfolding frame_def by blast

lemma frame_prey:
  "frame w h0 V st \<Longrightarrow> q \<notin> V \<Longrightarrow> occupant (newGrid st) q = Some s \<Longrightarrow> occupant (Grid w) q \<noteq> None \<Longrightarrow>
     holds Fish h0 (Grid w) q \<and> s < length h0 \<and> Species (h0 ! s) = Shark
     \<and> Ate s (fst q) (snd q) \<in> set (events st)"
  unfolding frame_def by blast

lemma visit_step:
  assumes wf: "wellFormed w h0" and fr: "frame w h0 V st" and nv: "p \<notin> V"
    and p: "inGrid (Size w) p"
  shows "(occupant (Grid w) p = None \<and> visitCell w (fst p) (snd p) st = Some st)
       \<or> (\<exists>a. occupant (Grid w) p = Some a \<and> occupant (newGrid st) p \<noteq> None
              \<and> visitCell w (fst p) (snd p) st
                  = Some (st\<lparr>events := events st @ [Skipped (fst p) (snd p)]\<rparr>))
       \<or> (\<exists>a st' c' dest kid ate.
              visitCell w (fst p) (snd p) st = Some st'
            \<and> processed w h0 V p a st st' c' dest kid ate)"
proof -
  have b: "b < length (heap st)" if "occupant (Grid w) r = Some b" for r b
    using wf_bound [OF wf that] frame_length [OF fr] by simp
  have p': "inGrid (Size w) (fst p, snd p)" using p by simp
  show ?thesis
    using visitCell_cases [OF wf_square [OF wf] frame_square [OF fr] p'] b wf fr nv p
    unfolding processed_def by (simp del: not_None_eq) blast
qed

lemma processed_old: 
  assumes "processed w h0 V p a st st' c' dest kid ate"
  shows "a < length h0" and "a < length (heap st)" and "heap st ! a = h0 ! a"
proof -
  have wf: "wellFormed w h0" and fr: "frame w h0 V st" and nv: "p \<notin> V"
    and op: "occupant (Grid w) p = Some a"
    using assms by (simp_all add: processed_def)
  show a: "a < length h0" using wf_bound [OF wf op] .
  then show "a < length (heap st)" using frame_length [OF fr] by simp
  have "\<forall>p'\<in>V. occupant (Grid w) p' \<noteq> Some a"
    using wf_inj [OF wf op] nv by blast
  then show "heap st ! a = h0 ! a" using frame_untouched [OF fr a] by blast
qed

lemma processed_outcome:
  "processed w h0 V p a st st' c' dest kid ate \<Longrightarrow> outcome w p a st st' c' dest kid ate"
  by (simp add: processed_def)

lemma processed_heap:
  assumes "processed w h0 V p a st st' c' dest kid ate"
  shows "heap st' = (heap st)[a := c'] @ (if kid then [childOf w (Species (h0 ! a))] else [])"
  using processed_outcome [OF assms] unfolding outcome_def processed_old(3) [OF assms]
  by blast

lemma processed_heap_other:
  assumes "processed w h0 V p a st st' c' dest kid ate" "b \<noteq> a" "b < length (heap st)"
  shows "heap st' ! b = heap st ! b"
  using assms(2,3) by (simp add: processed_heap [OF assms(1)] nth_append)

lemma processed_heap_self:
  assumes "processed w h0 V p a st st' c' dest kid ate"
  shows "heap st' ! a = c'"
  using processed_old(2) [OF assms] by (simp add: processed_heap [OF assms] nth_append)

lemma processed_heap_length:
  assumes "processed w h0 V p a st st' c' dest kid ate"
  shows "length (heap st') = length (heap st) + (if kid then 1 else 0)"
  by (simp add: processed_heap [OF assms])

lemma processed_heap_kid:
  assumes "processed w h0 V p a st st' c' dest kid ate" "kid"
  shows "heap st' ! length (heap st) = childOf w (Species (h0 ! a))"
  using assms(2) by (simp add: processed_heap [OF assms(1)] nth_append)

lemma processed_record:
  assumes "processed w h0 V p a st st' c' dest kid ate"
  shows "Species c' = Species (h0 ! a)" and "Age c' = Age (h0 ! a) + 1"
    and "LastBreed c' = (if kid then 0 else LastBreed (h0 ! a) + 1)"
    and "Energy c' = (if Species (h0 ! a) = Shark
                      then (if ate then Starve w else Energy (h0 ! a) - 1)
                      else Energy (h0 ! a))"
  using processed_outcome [OF assms] unfolding outcome_def processed_old(3) [OF assms]
  by blast+

lemma processed_absent:
  assumes "processed w h0 V p a st st' c' dest kid ate" "occupant (newGrid st) r = Some b"
  shows "b \<noteq> a" and "b < length (heap st)" and "r \<noteq> p"
proof -
  have wf: "wellFormed w h0" and fr: "frame w h0 V st" and nv: "p \<notin> V"
    and op: "occupant (Grid w) p = Some a" and np: "occupant (newGrid st) p = None"
    using assms by (simp_all add: processed_def)
  show "b < length (heap st)" using frame_placed [OF fr assms(2)] by simp
  show "r \<noteq> p" using np assms(2) by auto
  show "b \<noteq> a"
  proof
    assume "b = a"
    then obtain p' where "p' \<in> V" "occupant (Grid w) p' = Some a"
      using frame_placed [OF fr assms(2)] processed_old(1) [OF assms(1)] by blast
    then show False using wf_inj [OF wf op] nv by blast
  qed
qed

lemma processed_dest:
  assumes "processed w h0 V p a st st' c' dest kid ate" "dest = Some q"
  shows "q = p \<and> \<not> kid \<and> \<not> ate
       \<or> q \<noteq> p \<and> inGrid (Size w) q \<and> occupant (newGrid st) q = None
         \<and> q \<in> set (the (getAdjacentPositions (fst p) (snd p) (Size w)))
         \<and> (if ate then holds Fish h0 (Grid w) q else occupant (Grid w) q = None)"
proof -
  have wf: "wellFormed w h0" and fr: "frame w h0 V st"
    using assms by (simp_all add: processed_def)
  have "holds Fish (heap st) (Grid w) q = holds Fish h0 (Grid w) q"
    using wf_bound [OF wf, of q] frame_species [OF fr]
    by (auto simp: holds_def split: option.splits)
  moreover have "q = p \<and> \<not> kid \<and> \<not> ate
       \<or> q \<noteq> p \<and> inGrid (Size w) q \<and> occupant (newGrid st) q = None
         \<and> q \<in> set (the (getAdjacentPositions (fst p) (snd p) (Size w)))
         \<and> (if ate then holds Fish (heap st) (Grid w) q else occupant (Grid w) q = None)"
    using processed_outcome [OF assms(1)] assms(2) unfolding outcome_def by blast
  ultimately show ?thesis by (auto split: if_splits)
qed

lemma processed_fate:
  assumes "processed w h0 V p a st st' c' dest kid ate"
  shows "dest = None \<longleftrightarrow>
           Species (h0 ! a) = Empty \<or> (Species (h0 ! a) = Shark \<and> Energy (h0 ! a) - 1 \<le>s 0)"
    and "kid \<Longrightarrow> dest \<noteq> None \<and> dest \<noteq> Some p
           \<and> threshold w (Species (h0 ! a)) \<le>s LastBreed (h0 ! a) + 1"
    and "ate \<Longrightarrow> Species (h0 ! a) = Shark \<and> dest \<noteq> None \<and> dest \<noteq> Some p"
  using processed_outcome [OF assms] unfolding outcome_def processed_old(3) [OF assms]
  by blast+

lemma processed_occupant:
  assumes "processed w h0 V p a st st' c' dest kid ate"
  shows "occupant (newGrid st') r = Some b \<longleftrightarrow>
           occupant (newGrid st) r = Some b \<or> (b = a \<and> dest = Some r)
         \<or> (b = length (heap st) \<and> kid \<and> r = p)"
proof -
  have np: "occupant (newGrid st) p = None"
    using assms by (simp add: processed_def)
  have o: "occupant (newGrid st') r =
            (if dest = Some r then Some a
             else if kid \<and> r = p then Some (length (heap st))
             else occupant (newGrid st) r)"
    using processed_outcome [OF assms] unfolding outcome_def by blast
  have d: "occupant (newGrid st) r = None" if "dest = Some r"
    using processed_dest [OF assms that] np by auto
  show ?thesis
    unfolding o using d np processed_fate(2) [OF assms] by auto
qed

lemma processed_square:
  "processed w h0 V p a st st' c' dest kid ate \<Longrightarrow> square (Size w) (newGrid st')"
  by (simp add: processed_def outcome_def)

lemma processed_events:
  assumes "processed w h0 V p a st st' c' dest kid ate"
  shows "events st' = events st
        @ (if dest = None \<and> Species (h0 ! a) = Shark then [Starved a] else [])
        @ (if ate then [Ate a (fst (the dest)) (snd (the dest))] else [])
        @ (if kid then [Bred a (length (heap st))] else [])"
  using processed_outcome [OF assms] unfolding outcome_def processed_old(3) [OF assms]
  by blast

lemma processed_events_mono:
  assumes "processed w h0 V p a st st' c' dest kid ate"
  shows "set (events st) \<subseteq> set (events st')"
  by (simp add: processed_events [OF assms])

lemma frame_processed:
  assumes P: "processed w h0 V p a st st' c' dest kid ate"
  shows "frame w h0 (insert p V) st'"
proof -
  have wf: "wellFormed w h0" and fr: "frame w h0 V st" and nv: "p \<notin> V"
    and op: "occupant (Grid w) p = Some a" and np: "occupant (newGrid st) p = None"
    using P by (simp_all add: processed_def)
  note old = processed_old [OF P]
  note len = processed_heap_length [OF P]
  have 1: "square (Size w) (newGrid st')" using processed_square [OF P] .
  have 2: "length h0 \<le> length (heap st')" using frame_length [OF fr] len by simp
  have 3: "\<forall>b<length h0. Species (heap st' ! b) = Species (h0 ! b)"
  proof (intro allI impI)
    fix b assume b: "b < length h0"
    show "Species (heap st' ! b) = Species (h0 ! b)"
    proof (cases "b = a")
      case True
      then show ?thesis using processed_heap_self [OF P] processed_record(1) [OF P] by simp
    next
      case False
      then have "heap st' ! b = heap st ! b"
        using processed_heap_other [OF P] b frame_length [OF fr] by simp
      then show ?thesis using frame_species [OF fr b] by simp
    qed
  qed
  have 4: "\<forall>b<length h0. (\<forall>p'\<in>insert p V. occupant (Grid w) p' \<noteq> Some b)
             \<longrightarrow> heap st' ! b = h0 ! b"
  proof (intro allI impI)
    fix b assume b: "b < length h0"
      and no: "\<forall>p'\<in>insert p V. occupant (Grid w) p' \<noteq> Some b"
    have "b \<noteq> a" using no op by auto
    then have "heap st' ! b = heap st ! b"
      using processed_heap_other [OF P] b frame_length [OF fr] by simp
    moreover have "\<forall>p'\<in>V. occupant (Grid w) p' \<noteq> Some b" using no by simp
    ultimately show "heap st' ! b = h0 ! b" using frame_untouched [OF fr b] by simp
  qed
  have 5: "\<forall>q b. occupant (newGrid st') q = Some b \<longrightarrow>
          b < length (heap st') \<and>
          (b < length h0 \<longrightarrow> (\<exists>p'\<in>insert p V. occupant (Grid w) p' = Some b))"
  proof (intro allI impI)
    fix q b assume o: "occupant (newGrid st') q = Some b"
    consider "occupant (newGrid st) q = Some b" | "b = a" "dest = Some q"
      | "b = length (heap st)" "kid" "q = p"
      using o processed_occupant [OF P] by blast
    then show "b < length (heap st') \<and>
          (b < length h0 \<longrightarrow> (\<exists>p'\<in>insert p V. occupant (Grid w) p' = Some b))"
    proof cases
      case 1
      have "b < length (heap st)"
        and "b < length h0 \<longrightarrow> (\<exists>p'\<in>V. occupant (Grid w) p' = Some b)"
        using frame_placed [OF fr 1] by simp_all
      then show ?thesis using len by auto
    next
      case 2
      have "a < length (heap st')" using old(2) len by simp
      then show ?thesis using 2 op by simp
    next
      case 3
      have "b < length (heap st')" "\<not> b < length h0"
        using 3 len frame_length [OF fr] by simp_all
      then show ?thesis by simp
    qed
  qed
  have 6: "\<forall>q q' b. occupant (newGrid st') q = Some b \<longrightarrow>
            occupant (newGrid st') q' = Some b \<longrightarrow> q = q'"
  proof (intro allI impI)
    fix q q' b
    assume o: "occupant (newGrid st') q = Some b" and o': "occupant (newGrid st') q' = Some b"
    have ne: "a \<noteq> length (heap st)" using old by simp
    consider (old) "occupant (newGrid st) q = Some b" | (par) "b = a" "dest = Some q"
      | (kid) "b = length (heap st)" "kid" "q = p"
      using o processed_occupant [OF P] by blast
    then show "q = q'"
    proof cases
      case old
      have b: "b \<noteq> a" "b < length (heap st)" using processed_absent(1,2) [OF P old] by simp_all
      then have "occupant (newGrid st) q' = Some b"
        using o' processed_occupant [OF P, of q' b] by auto
      then show ?thesis using frame_inj [OF fr old] by simp
    next
      case par
      have "\<not> occupant (newGrid st) q' = Some a"
        using processed_absent(1) [OF P, of q' a] by blast
      then have "dest = Some q'"
        using o' par(1) ne processed_occupant [OF P, of q' b] by auto
      then show ?thesis using par(2) by simp
    next
      case kid
      have "\<not> occupant (newGrid st) q' = Some (length (heap st))"
        using processed_absent(2) [OF P, of q' "length (heap st)"] by blast
      then have "q' = p"
        using o' kid(1) ne processed_occupant [OF P, of q' b] by auto
      then show ?thesis using kid(3) by simp
    qed
  qed
  have 7: "\<forall>q s. q \<notin> insert p V \<longrightarrow> occupant (newGrid st') q = Some s \<longrightarrow>
          occupant (Grid w) q \<noteq> None \<longrightarrow>
          holds Fish h0 (Grid w) q \<and> s < length h0 \<and> Species (h0 ! s) = Shark
        \<and> Ate s (fst q) (snd q) \<in> set (events st')"
  proof (intro allI impI)
    fix q s
    assume qv: "q \<notin> insert p V" and o: "occupant (newGrid st') q = Some s"
      and og: "occupant (Grid w) q \<noteq> None"
    consider "occupant (newGrid st) q = Some s" | "s = a" "dest = Some q"
      | "s = length (heap st)" "kid" "q = p"
      using o processed_occupant [OF P] by blast
    then show "holds Fish h0 (Grid w) q \<and> s < length h0 \<and> Species (h0 ! s) = Shark
        \<and> Ate s (fst q) (snd q) \<in> set (events st')"
    proof cases
      case 1
      have "q \<notin> V" using qv by simp
      from frame_prey [OF fr this 1 og] show ?thesis
        using processed_events_mono [OF P] by blast
    next
      case 2
      have qp: "q \<noteq> p" using qv by simp
      have "ate \<and> holds Fish h0 (Grid w) q"
        using processed_dest [OF P 2(2)] qp og by (cases ate) simp_all
      then have ate: "ate" and hf: "holds Fish h0 (Grid w) q" by simp_all
      have "Ate a (fst q) (snd q) \<in> set (events st')"
        using ate 2(2) by (simp add: processed_events [OF P])
      then show ?thesis
        using hf old(1) processed_fate(3) [OF P ate] 2(1) by simp
    next
      case 3
      then show ?thesis using qv by simp
    qed
  qed
  show ?thesis
    unfolding frame_def by (intro conjI 1 2 3 4 5 6 7)
qed

lemma frame_idle:
  assumes fr: "frame w h0 V st" and ev: "set (events st) \<subseteq> set ev"
  shows "frame w h0 (insert p V) (st\<lparr>events := ev\<rparr>)"
proof -
  let ?st' = "st\<lparr>events := ev\<rparr>"
  have 1: "square (Size w) (newGrid ?st')" using frame_square [OF fr] by simp
  have 2: "length h0 \<le> length (heap ?st')" using frame_length [OF fr] by simp
  have 3: "\<forall>b<length h0. Species (heap ?st' ! b) = Species (h0 ! b)"
    using frame_species [OF fr] by simp
  have 4: "\<forall>b<length h0. (\<forall>p'\<in>insert p V. occupant (Grid w) p' \<noteq> Some b)
             \<longrightarrow> heap ?st' ! b = h0 ! b"
    using frame_untouched [OF fr] by simp
  have 5: "\<forall>q b. occupant (newGrid ?st') q = Some b \<longrightarrow>
          b < length (heap ?st') \<and>
          (b < length h0 \<longrightarrow> (\<exists>p'\<in>insert p V. occupant (Grid w) p' = Some b))"
  proof (intro allI impI)
    fix q b assume "occupant (newGrid ?st') q = Some b"
    then have o: "occupant (newGrid st) q = Some b" by simp
    have "b < length (heap st)"
      and "b < length h0 \<longrightarrow> (\<exists>p'\<in>V. occupant (Grid w) p' = Some b)"
      using frame_placed [OF fr o] by simp_all
    then show "b < length (heap ?st') \<and>
          (b < length h0 \<longrightarrow> (\<exists>p'\<in>insert p V. occupant (Grid w) p' = Some b))"
      by auto
  qed
  have 6: "\<forall>q q' b. occupant (newGrid ?st') q = Some b \<longrightarrow>
            occupant (newGrid ?st') q' = Some b \<longrightarrow> q = q'"
    using frame_inj [OF fr] by simp
  have 7: "\<forall>q s. q \<notin> insert p V \<longrightarrow> occupant (newGrid ?st') q = Some s \<longrightarrow>
          occupant (Grid w) q \<noteq> None \<longrightarrow>
          holds Fish h0 (Grid w) q \<and> s < length h0 \<and> Species (h0 ! s) = Shark
        \<and> Ate s (fst q) (snd q) \<in> set (events ?st')"
  proof (intro allI impI)
    fix q s
    assume qv: "q \<notin> insert p V" and "occupant (newGrid ?st') q = Some s"
      and og: "occupant (Grid w) q \<noteq> None"
    then have o: "occupant (newGrid st) q = Some s" by simp
    have "q \<notin> V" using qv by simp
    from frame_prey [OF fr this o og]
    show "holds Fish h0 (Grid w) q \<and> s < length h0 \<and> Species (h0 ! s) = Shark
        \<and> Ate s (fst q) (snd q) \<in> set (events ?st')"
      using ev by auto
  qed
  show ?thesis
    unfolding frame_def by (intro conjI 1 2 3 4 5 6 7)
qed

section \<open>The log invariant\<close>

lemma logInv_clobber: "logInv w h0 V st \<Longrightarrow> Clobbered x y \<notin> set (events st)"
  by (simp add: logInv_def)

lemma logInv_ate:
  "logInv w h0 V st \<Longrightarrow> Ate s x y \<in> set (events st) \<Longrightarrow>
     occupant (newGrid st) (x, y) = Some s \<and> Energy (heap st ! s) = Starve w
     \<and> s < length h0 \<and> holds Fish h0 (Grid w) (x, y) \<and> Species (h0 ! s) = Shark
        \<and> (\<exists>p\<in>V. occupant (Grid w) p = Some s)"
  unfolding logInv_def by blast

lemma logInv_bred:
  "logInv w h0 V st \<Longrightarrow> Bred par c \<in> set (events st) \<Longrightarrow>
     (\<exists>q. occupant (newGrid st) q = Some par) \<and> (\<exists>q. occupant (newGrid st) q = Some c)
        \<and> LastBreed (heap st ! par) = 0 \<and> LastBreed (heap st ! c) = 0
        \<and> Species (heap st ! c) = Species (h0 ! par)
        \<and> par < length h0 \<and> length h0 \<le> c \<and> c < length (heap st)
        \<and> (\<exists>p\<in>V. occupant (Grid w) p = Some par)"
  unfolding logInv_def by blast

lemma logInv_skipped:
  "logInv w h0 V st \<Longrightarrow> Skipped x y \<in> set (events st) \<Longrightarrow>
     (x, y) \<in> V \<and> holds Fish h0 (Grid w) (x, y)
        \<and> (\<forall>f q. occupant (Grid w) (x, y) = Some f \<longrightarrow> occupant (newGrid st) q \<noteq> Some f)
        \<and> (\<exists>s. occupant (newGrid st) (x, y) = Some s \<and> s < length h0
               \<and> Species (h0 ! s) = Shark \<and> Ate s x y \<in> set (events st))"
  unfolding logInv_def by blast

lemma processed_keeps:
  assumes P: "processed w h0 V p a st st' c' dest kid ate"
    and o: "occupant (newGrid st) r = Some b"
  shows "occupant (newGrid st') r = Some b" and "heap st' ! b = heap st ! b"
proof -
  show "occupant (newGrid st') r = Some b" using o processed_occupant [OF P] by blast
  show "heap st' ! b = heap st ! b"
    using processed_heap_other [OF P] processed_absent(1,2) [OF P o] by blast
qed

lemma processed_event_cases:
  assumes P: "processed w h0 V p a st st' c' dest kid ate" and e: "e \<in> set (events st')"
  shows "e \<in> set (events st)
       \<or> (e = Starved a \<and> dest = None)
       \<or> (\<exists>q. e = Ate a (fst q) (snd q) \<and> ate \<and> dest = Some q)
       \<or> (e = Bred a (length (heap st)) \<and> kid)"
proof -
  have "ate \<Longrightarrow> \<exists>q. dest = Some q" using processed_fate(3) [OF P] by auto
  then show ?thesis
    using e unfolding processed_events [OF P]
    by (auto split: if_splits)
qed

lemma processed_not_placed:
  assumes P: "processed w h0 V p a st st' c' dest kid ate"
    and b: "b < length h0" "b \<noteq> a \<or> dest = None"
    and no: "\<forall>q. occupant (newGrid st) q \<noteq> Some b"
  shows "\<forall>q. occupant (newGrid st') q \<noteq> Some b"
proof (intro allI notI)
  fix q assume "occupant (newGrid st') q = Some b"
  then consider "occupant (newGrid st) q = Some b" | "b = a" "dest = Some q"
    | "b = length (heap st)"
    using processed_occupant [OF P] by blast
  then show False
  proof cases
    case 1 then show ?thesis using no by blast
  next
    case 2 then show ?thesis using b(2) by auto
  next
    case 3
    have "frame w h0 V st" using P by (simp add: processed_def)
    then show ?thesis using 3 b(1) frame_length by fastforce
  qed
qed

lemma logInv_processed:
  assumes P: "processed w h0 V p a st st' c' dest kid ate" and L: "logInv w h0 V st"
  shows "logInv w h0 (insert p V) st'"
proof -
  have wf: "wellFormed w h0" and fr: "frame w h0 V st" and nv: "p \<notin> V"
    and op: "occupant (Grid w) p = Some a" and np: "occupant (newGrid st) p = None"
    using P by (simp_all add: processed_def)
  note old = processed_old [OF P]
  have 1: "\<forall>x y. Clobbered x y \<notin> set (events st')"
  proof (intro allI notI)
    fix x y assume "Clobbered x y \<in> set (events st')"
    from processed_event_cases [OF P this] show False
      using logInv_clobber [OF L] by auto
  qed
  have 2: "\<forall>s x y. Ate s x y \<in> set (events st') \<longrightarrow>
          occupant (newGrid st') (x, y) = Some s \<and> Energy (heap st' ! s) = Starve w
        \<and> s < length h0 \<and> holds Fish h0 (Grid w) (x, y) \<and> Species (h0 ! s) = Shark
        \<and> (\<exists>p'\<in>insert p V. occupant (Grid w) p' = Some s)"
  proof (intro allI impI)
    fix s x y assume "Ate s x y \<in> set (events st')"
    from processed_event_cases [OF P this]
    consider "Ate s x y \<in> set (events st)" | q where "s = a" "q = (x, y)" "ate" "dest = Some q"
      by auto
    then show "occupant (newGrid st') (x, y) = Some s \<and> Energy (heap st' ! s) = Starve w
        \<and> s < length h0 \<and> holds Fish h0 (Grid w) (x, y) \<and> Species (h0 ! s) = Shark
        \<and> (\<exists>p'\<in>insert p V. occupant (Grid w) p' = Some s)"
    proof cases
      case 1
      from logInv_ate [OF L 1] processed_keeps [OF P, of "(x, y)" s]
      show ?thesis by auto
    next
      case 2
      have "occupant (newGrid st') (x, y) = Some a"
        using 2 processed_occupant [OF P, of "(x, y)" a] by simp
      moreover have "Energy (heap st' ! a) = Starve w"
        using processed_heap_self [OF P] processed_record(4) [OF P]
          processed_fate(3) [OF P] 2(3) by simp
      moreover have "Species (h0 ! a) = Shark" using processed_fate(3) [OF P] 2(3) by simp
      moreover have "holds Fish h0 (Grid w) (x, y)"
        using processed_dest [OF P 2(4)] processed_fate(3) [OF P] 2(2,3,4) by auto
      ultimately show ?thesis using 2(1) old(1) op by auto
    qed
  qed
  have 3: "\<forall>par c. Bred par c \<in> set (events st') \<longrightarrow>
          (\<exists>q. occupant (newGrid st') q = Some par) \<and> (\<exists>q. occupant (newGrid st') q = Some c)
        \<and> LastBreed (heap st' ! par) = 0 \<and> LastBreed (heap st' ! c) = 0
        \<and> Species (heap st' ! c) = Species (h0 ! par)
        \<and> par < length h0 \<and> length h0 \<le> c \<and> c < length (heap st')
        \<and> (\<exists>p'\<in>insert p V. occupant (Grid w) p' = Some par)"
  proof (intro allI impI)
    fix par c assume "Bred par c \<in> set (events st')"
    from processed_event_cases [OF P this]
    consider "Bred par c \<in> set (events st)" | "par = a" "c = length (heap st)" "kid"
      by auto
    then show "(\<exists>q. occupant (newGrid st') q = Some par) \<and> (\<exists>q. occupant (newGrid st') q = Some c)
        \<and> LastBreed (heap st' ! par) = 0 \<and> LastBreed (heap st' ! c) = 0
        \<and> Species (heap st' ! c) = Species (h0 ! par)
        \<and> par < length h0 \<and> length h0 \<le> c \<and> c < length (heap st')
        \<and> (\<exists>p'\<in>insert p V. occupant (Grid w) p' = Some par)"
    proof cases
      case 1
      note b = logInv_bred [OF L 1]
      obtain q1 q2 where q1: "occupant (newGrid st) q1 = Some par"
        and q2: "occupant (newGrid st) q2 = Some c" using b by blast
      have "c < length (heap st')" using b processed_heap_length [OF P] by simp
      moreover have "\<exists>q. occupant (newGrid st') q = Some par"
        using processed_keeps(1) [OF P q1] by blast
      moreover have "\<exists>q. occupant (newGrid st') q = Some c"
        using processed_keeps(1) [OF P q2] by blast
      moreover have "heap st' ! par = heap st ! par" "heap st' ! c = heap st ! c"
        using processed_keeps(2) [OF P q1] processed_keeps(2) [OF P q2] by simp_all
      moreover have "\<exists>p'\<in>insert p V. occupant (Grid w) p' = Some par" using b by blast
      ultimately show ?thesis using b by simp
    next
      case 2
      obtain q where q: "dest = Some q" using processed_fate(2) [OF P 2(3)] by auto
      have "occupant (newGrid st') q = Some a"
        using q processed_occupant [OF P, of q a] by simp
      moreover have "occupant (newGrid st') p = Some (length (heap st))"
        using 2(3) processed_occupant [OF P, of p "length (heap st)"] by simp
      moreover have "LastBreed (heap st' ! a) = 0"
        using processed_heap_self [OF P] processed_record(3) [OF P] 2(3) by simp
      moreover have "heap st' ! length (heap st) = childOf w (Species (h0 ! a))"
        using processed_heap_kid [OF P 2(3)] .
      moreover have "length (heap st) < length (heap st')"
        using processed_heap_length [OF P] 2(3) by simp
      moreover have "\<exists>q. occupant (newGrid st') q = Some a"
        using calculation(1) by blast
      moreover have "\<exists>q. occupant (newGrid st') q = Some (length (heap st))"
        using calculation(2) by blast
      moreover have "\<exists>p'\<in>insert p V. occupant (Grid w) p' = Some a" using op by blast
      ultimately show ?thesis
        unfolding 2(1,2) using old(1) frame_length [OF fr] by (simp add: childOf_def)
    qed
  qed
  have 4: "\<forall>x y. Skipped x y \<in> set (events st') \<longrightarrow>
          (x, y) \<in> insert p V \<and> holds Fish h0 (Grid w) (x, y)
        \<and> (\<forall>f q. occupant (Grid w) (x, y) = Some f \<longrightarrow> occupant (newGrid st') q \<noteq> Some f)
        \<and> (\<exists>s. occupant (newGrid st') (x, y) = Some s \<and> s < length h0
               \<and> Species (h0 ! s) = Shark \<and> Ate s x y \<in> set (events st'))"
  proof (intro allI impI)
    fix x y assume "Skipped x y \<in> set (events st')"
    from processed_event_cases [OF P this]
    have 1: "Skipped x y \<in> set (events st)" by auto
    from logInv_skipped [OF L 1] obtain s where
      s: "occupant (newGrid st) (x, y) = Some s" "s < length h0"
         "Species (h0 ! s) = Shark" "Ate s x y \<in> set (events st)"
      and v: "(x, y) \<in> V" "holds Fish h0 (Grid w) (x, y)"
      and ab: "\<forall>f q. occupant (Grid w) (x, y) = Some f \<longrightarrow> occupant (newGrid st) q \<noteq> Some f"
      by blast
    have ab': "\<forall>f q. occupant (Grid w) (x, y) = Some f \<longrightarrow> occupant (newGrid st') q \<noteq> Some f"
    proof (intro allI impI)
      fix f q assume f: "occupant (Grid w) (x, y) = Some f"
      have "f \<noteq> a" using wf_inj [OF wf op, of "(x, y)"] f v(1) nv by auto
      moreover have "f < length h0" using wf_bound [OF wf f] .
      moreover have "\<forall>q. occupant (newGrid st) q \<noteq> Some f" using ab f by blast
      ultimately show "occupant (newGrid st') q \<noteq> Some f"
        using processed_not_placed [OF P, of f] by blast
    qed
    show "(x, y) \<in> insert p V \<and> holds Fish h0 (Grid w) (x, y)
        \<and> (\<forall>f q. occupant (Grid w) (x, y) = Some f \<longrightarrow> occupant (newGrid st') q \<noteq> Some f)
        \<and> (\<exists>s. occupant (newGrid st') (x, y) = Some s \<and> s < length h0
               \<and> Species (h0 ! s) = Shark \<and> Ate s x y \<in> set (events st'))"
      using v s ab' processed_keeps(1) [OF P s(1)] processed_events_mono [OF P] by auto
  qed
  show ?thesis
    unfolding logInv_def by (intro conjI 1 2 3 4)
qed

lemma logInv_idle:
  assumes L: "logInv w h0 V st"
  shows "logInv w h0 (insert p V) st"
proof -
  have 1: "\<forall>x y. Clobbered x y \<notin> set (events st)"
    using logInv_clobber [OF L] by simp
  have 2: "\<forall>s x y. Ate s x y \<in> set (events st) \<longrightarrow>
          occupant (newGrid st) (x, y) = Some s \<and> Energy (heap st ! s) = Starve w
        \<and> s < length h0 \<and> holds Fish h0 (Grid w) (x, y) \<and> Species (h0 ! s) = Shark
        \<and> (\<exists>p'\<in>insert p V. occupant (Grid w) p' = Some s)"
  proof (intro allI impI)
    fix s x y assume "Ate s x y \<in> set (events st)"
    from logInv_ate [OF L this]
    show "occupant (newGrid st) (x, y) = Some s \<and> Energy (heap st ! s) = Starve w
        \<and> s < length h0 \<and> holds Fish h0 (Grid w) (x, y) \<and> Species (h0 ! s) = Shark
        \<and> (\<exists>p'\<in>insert p V. occupant (Grid w) p' = Some s)"
      by blast
  qed
  have 3: "\<forall>par c. Bred par c \<in> set (events st) \<longrightarrow>
          (\<exists>q. occupant (newGrid st) q = Some par) \<and> (\<exists>q. occupant (newGrid st) q = Some c)
        \<and> LastBreed (heap st ! par) = 0 \<and> LastBreed (heap st ! c) = 0
        \<and> Species (heap st ! c) = Species (h0 ! par)
        \<and> par < length h0 \<and> length h0 \<le> c \<and> c < length (heap st)
        \<and> (\<exists>p'\<in>insert p V. occupant (Grid w) p' = Some par)"
  proof (intro allI impI)
    fix par c assume "Bred par c \<in> set (events st)"
    from logInv_bred [OF L this]
    show "(\<exists>q. occupant (newGrid st) q = Some par) \<and> (\<exists>q. occupant (newGrid st) q = Some c)
        \<and> LastBreed (heap st ! par) = 0 \<and> LastBreed (heap st ! c) = 0
        \<and> Species (heap st ! c) = Species (h0 ! par)
        \<and> par < length h0 \<and> length h0 \<le> c \<and> c < length (heap st)
        \<and> (\<exists>p'\<in>insert p V. occupant (Grid w) p' = Some par)"
      by blast
  qed
  have 4: "\<forall>x y. Skipped x y \<in> set (events st) \<longrightarrow>
          (x, y) \<in> insert p V \<and> holds Fish h0 (Grid w) (x, y)
        \<and> (\<forall>f q. occupant (Grid w) (x, y) = Some f \<longrightarrow> occupant (newGrid st) q \<noteq> Some f)
        \<and> (\<exists>s. occupant (newGrid st) (x, y) = Some s \<and> s < length h0
               \<and> Species (h0 ! s) = Shark \<and> Ate s x y \<in> set (events st))"
  proof (intro allI impI)
    fix x y assume "Skipped x y \<in> set (events st)"
    from logInv_skipped [OF L this]
    show "(x, y) \<in> insert p V \<and> holds Fish h0 (Grid w) (x, y)
        \<and> (\<forall>f q. occupant (Grid w) (x, y) = Some f \<longrightarrow> occupant (newGrid st) q \<noteq> Some f)
        \<and> (\<exists>s. occupant (newGrid st) (x, y) = Some s \<and> s < length h0
               \<and> Species (h0 ! s) = Shark \<and> Ate s x y \<in> set (events st))"
      by blast
  qed
  show ?thesis
    unfolding logInv_def by (intro conjI 1 2 3 4)
qed

lemma logInv_skip:
  assumes wf: "wellFormed w h0" and fr: "frame w h0 V st" and L: "logInv w h0 V st"
    and nv: "p \<notin> V" and op: "occupant (Grid w) p = Some a"
    and np: "occupant (newGrid st) p \<noteq> None"
  shows "logInv w h0 (insert p V) (st\<lparr>events := events st @ [Skipped (fst p) (snd p)]\<rparr>)"
proof -
  obtain s where s: "occupant (newGrid st) p = Some s" using np by auto
  have og: "occupant (Grid w) p \<noteq> None" using op by simp
  note pr = frame_prey [OF fr nv s og]
  have L': "logInv w h0 (insert p V) st" using logInv_idle [OF L] .
  let ?st' = "st\<lparr>events := events st @ [Skipped (fst p) (snd p)]\<rparr>"
  have 1: "\<forall>x y. Clobbered x y \<notin> set (events ?st')"
    using logInv_clobber [OF L] by simp
  have 2: "\<forall>s x y. Ate s x y \<in> set (events ?st') \<longrightarrow>
          occupant (newGrid ?st') (x, y) = Some s \<and> Energy (heap ?st' ! s) = Starve w
        \<and> s < length h0 \<and> holds Fish h0 (Grid w) (x, y) \<and> Species (h0 ! s) = Shark
        \<and> (\<exists>p'\<in>insert p V. occupant (Grid w) p' = Some s)"
  proof (intro allI impI)
    fix s x y assume "Ate s x y \<in> set (events ?st')"
    then have "Ate s x y \<in> set (events st)" by simp
    from logInv_ate [OF L' this]
    show "occupant (newGrid ?st') (x, y) = Some s \<and> Energy (heap ?st' ! s) = Starve w
        \<and> s < length h0 \<and> holds Fish h0 (Grid w) (x, y) \<and> Species (h0 ! s) = Shark
        \<and> (\<exists>p'\<in>insert p V. occupant (Grid w) p' = Some s)"
      by simp
  qed
  have 3: "\<forall>par c. Bred par c \<in> set (events ?st') \<longrightarrow>
          (\<exists>q. occupant (newGrid ?st') q = Some par) \<and> (\<exists>q. occupant (newGrid ?st') q = Some c)
        \<and> LastBreed (heap ?st' ! par) = 0 \<and> LastBreed (heap ?st' ! c) = 0
        \<and> Species (heap ?st' ! c) = Species (h0 ! par)
        \<and> par < length h0 \<and> length h0 \<le> c \<and> c < length (heap ?st')
        \<and> (\<exists>p'\<in>insert p V. occupant (Grid w) p' = Some par)"
  proof (intro allI impI)
    fix par c assume "Bred par c \<in> set (events ?st')"
    then have "Bred par c \<in> set (events st)" by simp
    from logInv_bred [OF L' this]
    show "(\<exists>q. occupant (newGrid ?st') q = Some par) \<and> (\<exists>q. occupant (newGrid ?st') q = Some c)
        \<and> LastBreed (heap ?st' ! par) = 0 \<and> LastBreed (heap ?st' ! c) = 0
        \<and> Species (heap ?st' ! c) = Species (h0 ! par)
        \<and> par < length h0 \<and> length h0 \<le> c \<and> c < length (heap ?st')
        \<and> (\<exists>p'\<in>insert p V. occupant (Grid w) p' = Some par)"
      by (simp del: split_paired_Ex split_paired_All)
  qed
  have 4: "\<forall>x y. Skipped x y \<in> set (events ?st') \<longrightarrow>
          (x, y) \<in> insert p V \<and> holds Fish h0 (Grid w) (x, y)
        \<and> (\<forall>f q. occupant (Grid w) (x, y) = Some f \<longrightarrow> occupant (newGrid ?st') q \<noteq> Some f)
        \<and> (\<exists>s. occupant (newGrid ?st') (x, y) = Some s \<and> s < length h0
               \<and> Species (h0 ! s) = Shark \<and> Ate s x y \<in> set (events ?st'))"
  proof (intro allI impI)
    fix x y assume "Skipped x y \<in> set (events ?st')"
    then consider "Skipped x y \<in> set (events st)" | "(x, y) = p" by auto
    then show "(x, y) \<in> insert p V \<and> holds Fish h0 (Grid w) (x, y)
        \<and> (\<forall>f q. occupant (Grid w) (x, y) = Some f \<longrightarrow> occupant (newGrid ?st') q \<noteq> Some f)
        \<and> (\<exists>s. occupant (newGrid ?st') (x, y) = Some s \<and> s < length h0
               \<and> Species (h0 ! s) = Shark \<and> Ate s x y \<in> set (events ?st'))"
    proof cases
      case 1
      from logInv_skipped [OF L' 1] show ?thesis
        by (simp del: split_paired_Ex split_paired_All)
    next
      case 2
      then have xy: "fst p = x" "snd p = y" by auto
      have "\<exists>s. occupant (newGrid st) p = Some s \<and> s < length h0
               \<and> Species (h0 ! s) = Shark \<and> Ate s x y \<in> set (events st)"
        using pr s xy by auto
      moreover have "\<forall>f q. occupant (Grid w) p = Some f \<longrightarrow> occupant (newGrid st) q \<noteq> Some f"
      proof (intro allI impI notI)
        fix f q assume f: "occupant (Grid w) p = Some f" and q: "occupant (newGrid st) q = Some f"
        have "f < length h0" using wf_bound [OF wf f] .
        then obtain p' where "p' \<in> V" "occupant (Grid w) p' = Some f"
          using frame_placed [OF fr q] by blast
        then show False using wf_inj [OF wf f] nv by blast
      qed
      ultimately show ?thesis using pr unfolding 2
        by (simp del: split_paired_Ex split_paired_All)
    qed
  qed
  show ?thesis
    unfolding logInv_def by (intro conjI 1 2 3 4)
qed

section \<open>Fate of the visited creatures, energy of the sharks\<close>

lemma fate_stable:
  assumes P: "processed w h0 V p a st st' c' dest kid ate"
    and b: "b < length h0" "b \<noteq> a" and f: "fate w h0 st p' b"
  shows "fate w h0 st' p' b"
proof -
  have fr: "frame w h0 V st" using P by (simp add: processed_def)
  have h: "heap st' ! b = heap st ! b"
    using processed_heap_other [OF P b(2)] b(1) frame_length [OF fr] by simp
  have np: "\<forall>q. occupant (newGrid st') q \<noteq> Some b"
    if "\<forall>q. occupant (newGrid st) q \<noteq> Some b"
    using processed_not_placed [OF P b(1) _ that] b(2) by blast
  have ev: "Skipped x y \<in> set (events st')" if "Skipped x y \<in> set (events st)" for x y
    using that processed_events_mono [OF P] by blast
  show ?thesis
    using f np ev unfolding fate_def h by (auto split: if_splits)
qed

lemma fate_self:
  assumes P: "processed w h0 V p a st st' c' dest kid ate"
  shows "fate w h0 st' p a"
proof -
  note old = processed_old [OF P]
  have h: "heap st' ! a = c'" using processed_heap_self [OF P] .
  have age: "Age c' = Age (h0 ! a) + 1" using processed_record(2) [OF P] .
  have en: "Energy c' = Energy (h0 ! a) - 1 \<or> Energy c' = Starve w"
    if "Species (h0 ! a) = Shark"
    using processed_record(4) [OF P] that by (cases ate) simp_all
  have gone: "Energy c' = Energy (h0 ! a) - 1 \<and> (\<forall>q. occupant (newGrid st') q \<noteq> Some a)"
    if s: "Species (h0 ! a) = Shark" and e: "Energy (h0 ! a) - 1 \<le>s 0"
  proof -
    have d: "dest = None" using processed_fate(1) [OF P] s e by simp
    then have "\<not> ate" using processed_fate(3) [OF P] by auto
    then have "Energy c' = Energy (h0 ! a) - 1" using processed_record(4) [OF P] s by simp
    moreover have "\<forall>q. occupant (newGrid st) q \<noteq> Some a"
      using processed_absent(1) [OF P] by blast
    then have "\<forall>q. occupant (newGrid st') q \<noteq> Some a"
      using processed_not_placed [OF P old(1) _] d by blast
    ultimately show ?thesis by simp
  qed
  show ?thesis
    unfolding fate_def h using age en gone by auto
qed

lemma fateInv_processed:
  assumes P: "processed w h0 V p a st st' c' dest kid ate" and F: "fateInv w h0 V st"
  shows "fateInv w h0 (insert p V) st'"
  unfolding fateInv_def
proof (intro ballI allI impI)
  fix p' b assume p': "p' \<in> insert p V" and o: "occupant (Grid w) p' = Some b"
  have wf: "wellFormed w h0" and nv: "p \<notin> V" and op: "occupant (Grid w) p = Some a"
    using P by (simp_all add: processed_def)
  show "fate w h0 st' p' b"
  proof (cases "p' = p")
    case True
    then have "b = a" using o op by simp
    then show ?thesis using fate_self [OF P] True by simp
  next
    case False
    then have v: "p' \<in> V" using p' by simp
    have "b \<noteq> a" using wf_inj [OF wf op, of p'] o False by auto
    moreover have "b < length h0" using wf_bound [OF wf o] .
    moreover have "fate w h0 st p' b" using F v o unfolding fateInv_def by blast
    ultimately show ?thesis using fate_stable [OF P] by blast
  qed
qed

lemma fateInv_idle:
  assumes F: "fateInv w h0 V st" and op: "occupant (Grid w) p = None"
  shows "fateInv w h0 (insert p V) st"
  using F op unfolding fateInv_def by auto

lemma fateInv_skip:
  assumes wf: "wellFormed w h0" and fr: "frame w h0 V st" and F: "fateInv w h0 V st"
    and nv: "p \<notin> V" and op: "occupant (Grid w) p = Some a"
  shows "fateInv w h0 (insert p V) (st\<lparr>events := events st @ [Skipped (fst p) (snd p)]\<rparr>)"
  unfolding fateInv_def
proof (intro ballI allI impI)
  let ?st' = "st\<lparr>events := events st @ [Skipped (fst p) (snd p)]\<rparr>"
  fix p' b assume p': "p' \<in> insert p V" and o: "occupant (Grid w) p' = Some b"
  show "fate w h0 ?st' p' b"
  proof (cases "p' = p")
    case True
    then have ba: "b = a" using o op by simp
    have a: "a < length h0" using wf_bound [OF wf op] .
    have nowhere: "\<forall>p''\<in>V. occupant (Grid w) p'' \<noteq> Some a"
      using wf_inj [OF wf op] nv by blast
    then have "heap st ! a = h0 ! a" using frame_untouched [OF fr a] by blast
    moreover have "\<forall>q. occupant (newGrid st) q \<noteq> Some a"
      using frame_placed [OF fr] a nowhere by blast
    ultimately show ?thesis unfolding fate_def ba True by simp
  next
    case False
    then have "fate w h0 st p' b" using F p' o unfolding fateInv_def by blast
    then show ?thesis unfolding fate_def by (auto split: if_splits)
  qed
qed

lemma sless_facts:
  "\<not> (x::64 word) \<le>s 0 \<Longrightarrow> 0 <s x" "1 \<le>s (x::64 word) \<Longrightarrow> 0 <s x"
  "0 <s (x::64 word) \<Longrightarrow> 1 \<le>s x"
  by (simp_all add: word_sle_eq word_sless_alt)

lemma energyInv_processed:
  assumes P: "processed w h0 V p a st st' c' dest kid ate" and E: "energyInv st"
    and S: "1 \<le>s Starve w"
  shows "energyInv st'"
  unfolding energyInv_def
proof (intro allI impI)
  fix q s assume o: "occupant (newGrid st') q = Some s" and sh: "Species (heap st' ! s) = Shark"
  consider "occupant (newGrid st) q = Some s" | "s = a" "dest = Some q"
    | "s = length (heap st)" "kid" "q = p"
    using o processed_occupant [OF P] by blast
  then show "0 <s Energy (heap st' ! s)"
  proof cases
    case 1
    have h: "heap st' ! s = heap st ! s" using processed_keeps(2) [OF P 1] .
    have "0 <s Energy (heap st ! s)"
      using E 1 sh unfolding energyInv_def h by blast
    then show ?thesis unfolding h .
  next
    case 2
    have h: "heap st' ! s = c'" using processed_heap_self [OF P] 2(1) by simp
    have sp: "Species (h0 ! a) = Shark" using sh h processed_record(1) [OF P] by simp
    have "\<not> Energy (h0 ! a) - 1 \<le>s 0" using processed_fate(1) [OF P] 2(2) sp by simp
    then have "0 <s Energy (h0 ! a) - 1" by (rule sless_facts(1))
    moreover have "0 <s Starve w" using S by (rule sless_facts(2))
    ultimately show ?thesis using processed_record(4) [OF P] sp h by (cases ate) simp_all
  next
    case 3
    have h: "heap st' ! s = childOf w (Species (h0 ! a))"
      using processed_heap_kid [OF P 3(2)] 3(1) by simp
    have "0 <s Starve w" using S by (rule sless_facts(2))
    then show ?thesis using sh unfolding h by (simp add: childOf_def)
  qed
qed

lemma energyInv_events: "energyInv st \<Longrightarrow> energyInv (st\<lparr>events := ev\<rparr>)"
  by (simp add: energyInv_def)

section \<open>Counting\<close>

lemma finite_occupied:
  assumes "square n g"
  shows "finite {q. \<exists>a. occupant g q = Some a \<and> Q q a}"
proof (rule finite_subset)
  show "{q. \<exists>a. occupant g q = Some a \<and> Q q a} \<subseteq> set (cells n)"
    using occupant_Some_inGrid [OF assms] by (auto simp: set_cells)
qed simp

lemma finite_settled: "square n (newGrid st) \<Longrightarrow> finite (settled s h0 st)"
  unfolding settled_def by (rule finite_occupied)

lemma finite_born: "square n (newGrid st) \<Longrightarrow> finite (born s h0 st)"
  unfolding born_def by (rule finite_occupied)

lemma card_grow:
  assumes "finite A" "A' \<subseteq> A \<union> X" "finite X" "card X \<le> k" "card A \<le> m"
  shows "card A' \<le> m + k"
proof -
  have "card A' \<le> card (A \<union> X)" using assms(1,2,3) by (intro card_mono) auto
  also have "\<dots> \<le> card A + card X" by (rule card_Un_le)
  finally show ?thesis using assms(4,5) by simp
qed

lemma card_visit:
  assumes "finite V" "p \<notin> V"
  shows "card {p' \<in> insert p V. Q p'} = card {p' \<in> V. Q p'} + (if Q p then 1 else 0)"
proof (cases "Q p")
  case True
  then have "{p' \<in> insert p V. Q p'} = insert p {p' \<in> V. Q p'}" by auto
  then show ?thesis using assms True by simp
next
  case False
  then have "{p' \<in> insert p V. Q p'} = {p' \<in> V. Q p'}" by auto
  then show ?thesis using False by simp
qed

lemma processed_eligible:
  assumes P: "processed w h0 V p a st st' c' dest kid ate" and kid: "kid"
  shows "eligibleBreeder w h0 (Species (h0 ! a)) p"
proof -
  have op: "occupant (Grid w) p = Some a" and pG: "inGrid (Size w) p"
    using P by (simp_all add: processed_def)
  obtain q where q: "dest = Some q" and qp: "q \<noteq> p"
    and th: "threshold w (Species (h0 ! a)) \<le>s LastBreed (h0 ! a) + 1"
    using processed_fate(2) [OF P kid] by auto
  obtain adj where adj: "getAdjacentPositions (fst p) (snd p) (Size w) = Some adj"
    using adjacent_inGrid [of "Size w" "fst p" "snd p"] pG by auto
  have qa: "q \<in> set adj"
    and qo: "if ate then holds Fish h0 (Grid w) q else occupant (Grid w) q = None"
    using processed_dest [OF P q] qp adj by auto
  have "occupant (Grid w) q = None \<or> (Species (h0 ! a) = Shark \<and> holds Fish h0 (Grid w) q)"
    using qo processed_fate(3) [OF P] by (cases ate) simp_all
  then have "validDestination w h0 (Species (h0 ! a)) p"
    using qa unfolding validDestination_def adj by (auto simp: list_ex_iff)
  then show ?thesis using op th by (simp add: eligibleBreeder_def)
qed

lemma countInv_processed:
  assumes P: "processed w h0 V p a st st' c' dest kid ate" and C: "countInv w h0 V st"
  shows "countInv w h0 (insert p V) st'"
proof -
  have fr: "frame w h0 V st" and nv: "p \<notin> V" and op: "occupant (Grid w) p = Some a"
    using P by (simp_all add: processed_def)
  have fin: "finite V" using C by (simp add: countInv_def)
  have sq: "square (Size w) (newGrid st)" using frame_square [OF fr] .
  note old = processed_old [OF P]
  have hp: "holds s h0 (Grid w) p \<longleftrightarrow> Species (h0 ! a) = s" for s
    using op by (simp add: holds_def)
  have 1: "card (settled s h0 st') \<le> card {p' \<in> insert p V. holds s h0 (Grid w) p'}" for s
  proof -
    let ?X = "{q. dest = Some q \<and> Species (h0 ! a) = s}"
    have sub: "settled s h0 st' \<subseteq> settled s h0 st \<union> ?X"
    proof
      fix q assume "q \<in> settled s h0 st'"
      then obtain b where b: "occupant (newGrid st') q = Some b" "b < length h0"
        "Species (h0 ! b) = s" by (auto simp: settled_def)
      then consider "occupant (newGrid st) q = Some b" | "b = a" "dest = Some q"
        | "b = length (heap st)"
        using processed_occupant [OF P] by blast
      then show "q \<in> settled s h0 st \<union> ?X"
      proof cases
        case 1 then show ?thesis using b by (auto simp: settled_def)
      next
        case 2 then show ?thesis using b by auto
      next
        case 3 then show ?thesis using b(2) frame_length [OF fr] by simp
      qed
    qed
    have X: "finite ?X" "card ?X \<le> (if Species (h0 ! a) = s then 1 else 0)"
      by (cases dest; simp)+
    have "card (settled s h0 st) \<le> card {p' \<in> V. holds s h0 (Grid w) p'}"
      using C by (simp add: countInv_def)
    from card_grow [OF finite_settled [OF sq] sub X this]
    show ?thesis unfolding card_visit [OF fin nv] hp by simp
  qed
  have 2: "card (born s h0 st') \<le> card {p' \<in> insert p V. eligibleBreeder w h0 s p'}" for s
  proof -
    let ?X = "{q. q = p \<and> kid \<and> Species (h0 ! a) = s}"
    have sub: "born s h0 st' \<subseteq> born s h0 st \<union> ?X"
    proof
      fix q assume "q \<in> born s h0 st'"
      then obtain b where b: "occupant (newGrid st') q = Some b" "length h0 \<le> b"
        "Species (heap st' ! b) = s" by (auto simp: born_def)
      then consider "occupant (newGrid st) q = Some b" | "b = a"
        | "b = length (heap st)" "kid" "q = p"
        using processed_occupant [OF P] by blast
      then show "q \<in> born s h0 st \<union> ?X"
      proof cases
        case 1
        have "heap st' ! b = heap st ! b" using processed_keeps(2) [OF P 1] .
        then show ?thesis using b 1 by (auto simp: born_def)
      next
        case 2 then show ?thesis using b(2) old(1) by simp
      next
        case 3
        have "heap st' ! b = childOf w (Species (h0 ! a))"
          using processed_heap_kid [OF P 3(2)] 3(1) by simp
        then have "Species (h0 ! a) = s" using b(3) by (simp add: childOf_def)
        then show ?thesis using 3 by simp
      qed
    qed
    have el: "eligibleBreeder w h0 s p" if "kid" "Species (h0 ! a) = s"
      using processed_eligible [OF P that(1)] that(2) by simp
    have X: "finite ?X" "card ?X \<le> (if eligibleBreeder w h0 s p then 1 else 0)"
    proof -
      have "?X \<subseteq> {p}" by auto
      then show "finite ?X" by (rule finite_subset) simp
      show "card ?X \<le> (if eligibleBreeder w h0 s p then 1 else 0)"
      proof (cases "kid \<and> Species (h0 ! a) = s")
        case True
        then have e: "?X = {p}" by auto
        show ?thesis unfolding e using el True by simp
      next
        case False
        then have e: "?X = {}" by auto
        show ?thesis unfolding e by simp
      qed
    qed
    have "card (born s h0 st) \<le> card {p' \<in> V. eligibleBreeder w h0 s p'}"
      using C by (simp add: countInv_def)
    from card_grow [OF finite_born [OF sq] sub X this]
    show ?thesis unfolding card_visit [OF fin nv] by simp
  qed
  show ?thesis
    unfolding countInv_def using fin 1 2 by simp
qed

lemma countInv_idle:
  assumes C: "countInv w h0 V st"
    and same: "newGrid st' = newGrid st" "heap st' = heap st"
  shows "countInv w h0 (insert p V) st'"
proof -
  have fin: "finite V" using C by (simp add: countInv_def)
  have e: "settled s h0 st' = settled s h0 st" "born s h0 st' = born s h0 st" for s
    by (simp_all add: settled_def born_def same)
  have m: "card {p' \<in> V. Q p'} \<le> card {p' \<in> insert p V. Q p'}" for Q
    using fin by (intro card_mono) auto
  have "card (settled s h0 st') \<le> card {p' \<in> insert p V. holds s h0 (Grid w) p'}"
    and "card (born s h0 st') \<le> card {p' \<in> insert p V. eligibleBreeder w h0 s p'}" for s
    using C m [of "holds s h0 (Grid w)"] m [of "eligibleBreeder w h0 s"]
    unfolding countInv_def e by (meson order_trans)+
  then show ?thesis unfolding countInv_def using fin by simp
qed

section \<open>The whole scan\<close>

lemma scanInv_step:
  assumes wf: "wellFormed w h0" and I: "scanInv w h0 V st" and nv: "p \<notin> V"
    and p: "inGrid (Size w) p"
  shows "\<exists>st'. visitCell w (fst p) (snd p) st = Some st' \<and> scanInv w h0 (insert p V) st'"
proof -
  have fr: "frame w h0 V st" and L: "logInv w h0 V st" and F: "fateInv w h0 V st"
    and C: "countInv w h0 V st" and E: "1 \<le>s Starve w \<Longrightarrow> energyInv st"
    using I by (simp_all add: scanInv_def)
  have vs: "(occupant (Grid w) p = None \<and> visitCell w (fst p) (snd p) st = Some st)
       \<or> (\<exists>a. occupant (Grid w) p = Some a \<and> occupant (newGrid st) p \<noteq> None
              \<and> visitCell w (fst p) (snd p) st
                  = Some (st\<lparr>events := events st @ [Skipped (fst p) (snd p)]\<rparr>))
       \<or> (\<exists>a st' c' dest kid ate.
              visitCell w (fst p) (snd p) st = Some st'
            \<and> processed w h0 V p a st st' c' dest kid ate)"
    by (rule visit_step [OF wf fr nv p])
  from vs show ?thesis
  proof (elim disjE exE conjE)
    assume idle: "occupant (Grid w) p = None" "visitCell w (fst p) (snd p) st = Some st"
    have "frame w h0 (insert p V) (st\<lparr>events := events st\<rparr>)"
      by (rule frame_idle [OF fr]) simp
    then have "frame w h0 (insert p V) st" by simp
    then have "scanInv w h0 (insert p V) st"
      unfolding scanInv_def
      using logInv_idle [OF L] fateInv_idle [OF F idle(1)]
        countInv_idle [OF C refl refl] E
      by simp
    then show ?thesis using idle(2) by simp
  next
    fix a
    assume skip: "occupant (Grid w) p = Some a" "occupant (newGrid st) p \<noteq> None"
        "visitCell w (fst p) (snd p) st
           = Some (st\<lparr>events := events st @ [Skipped (fst p) (snd p)]\<rparr>)"
    let ?st' = "st\<lparr>events := events st @ [Skipped (fst p) (snd p)]\<rparr>"
    have "frame w h0 (insert p V) ?st'" by (rule frame_idle [OF fr]) auto
    moreover have "logInv w h0 (insert p V) ?st'"
      using logInv_skip [OF wf fr L nv skip(1,2)] .
    moreover have "fateInv w h0 (insert p V) ?st'"
      using fateInv_skip [OF wf fr F nv skip(1)] .
    moreover have "countInv w h0 (insert p V) ?st'"
      by (rule countInv_idle [OF C]) simp_all
    moreover have "1 \<le>s Starve w \<longrightarrow> energyInv ?st'"
      using E energyInv_events by blast
    ultimately have "scanInv w h0 (insert p V) ?st'" unfolding scanInv_def by simp
    then show ?thesis using skip(3) by simp
  next
    fix a st' c' dest kid ate
    assume proc: "visitCell w (fst p) (snd p) st = Some st'"
        "processed w h0 V p a st st' c' dest kid ate"
    have "1 \<le>s Starve w \<longrightarrow> energyInv st'"
      using energyInv_processed [OF proc(2)] E by blast
    then have "scanInv w h0 (insert p V) st'"
      unfolding scanInv_def
      using frame_processed [OF proc(2)] logInv_processed [OF proc(2) L]
        fateInv_processed [OF proc(2) F] countInv_processed [OF proc(2) C]
      by simp
    then show ?thesis using proc(1) by simp
  qed
qed

lemma scanCells_inv:
  assumes wf: "wellFormed w h0"
  shows "scanInv w h0 V st \<Longrightarrow> distinct ps \<Longrightarrow> set ps \<inter> V = {} \<Longrightarrow>
         \<forall>p\<in>set ps. inGrid (Size w) p \<Longrightarrow>
         \<exists>st'. scanCells w ps st = Some st' \<and> scanInv w h0 (V \<union> set ps) st'"
proof (induction ps arbitrary: V st)
  case Nil
  then show ?case by simp
next
  case (Cons p ps)
  have nv: "p \<notin> V" and pG: "inGrid (Size w) p" using Cons.prems by auto
  obtain st1 where v: "visitCell w (fst p) (snd p) st = Some st1"
    and I1: "scanInv w h0 (insert p V) st1"
    using scanInv_step [OF wf Cons.prems(1) nv pG] by blast
  have "\<exists>st'. scanCells w ps st1 = Some st' \<and> scanInv w h0 (insert p V \<union> set ps) st'"
    using Cons.prems by (intro Cons.IH [OF I1]) auto
  then show ?case using v by simp
qed

lemma scanCells_append:
  "scanCells w (ps @ qs) st = scanCells w ps st \<bind> scanCells w qs"
  by (induction ps arbitrary: st) (simp_all split: bind_split)

lemma scanColumn_cells: "scanColumn w x ys st = scanCells w (map (Pair x) ys) st"
  by (induction ys arbitrary: st) (simp_all cong: Option.bind_cong)

lemma scanGrid_cells:
  "scanGrid w xs st = scanCells w (concat (map (\<lambda>x. map (Pair x) [0..Size w - 1]) xs)) st"
  by (induction xs arbitrary: st)
     (simp_all add: scanCells_append scanColumn_cells cong: Option.bind_cong)

lemma scanInv_init:
  assumes wf: "wellFormed w h0"
  shows "scanInv w h0 {}
           \<lparr>heap = h0, newGrid = replicate (nat (Size w)) (replicate (nat (Size w)) None),
            rng = r, events = []\<rparr>"
proof -
  have n: "0 \<le> Size w" using wf_square [OF wf] by (simp add: square_def)
  show ?thesis
    unfolding scanInv_def frame_def logInv_def fateInv_def countInv_def energyInv_def
      settled_def born_def
    using square_replicate [OF n]
    by (simp add: occupant_replicate)
qed

lemma processChronon_scanInv:
  assumes wf: "wellFormed w h0"
  shows "\<exists>st. processChronon w h0 r =
              Some (\<lparr>Grid = newGrid st, Size = Size w, FishBreed = FishBreed w,
                     SharkBreed = SharkBreed w, Starve = Starve w\<rparr>, st)
            \<and> scanInv w h0 {p. inGrid (Size w) p} st"
proof -
  have n: "0 \<le> Size w" using wf_square [OF wf] by (simp add: square_def)
  let ?st0 = "\<lparr>heap = h0, newGrid = replicate (nat (Size w)) (replicate (nat (Size w)) None),
            rng = r, events = []\<rparr>"
  have "\<exists>st'. scanCells w (cells (Size w)) ?st0 = Some st'
           \<and> scanInv w h0 ({} \<union> set (cells (Size w))) st'"
  proof (rule scanCells_inv [OF wf scanInv_init [OF wf] distinct_cells])
    show "set (cells (Size w)) \<inter> {} = {}" by simp
    show "\<forall>p\<in>set (cells (Size w)). inGrid (Size w) p" by (simp add: set_cells)
  qed
  then obtain st where s: "scanCells w (cells (Size w)) ?st0 = Some st"
    and I: "scanInv w h0 ({} \<union> set (cells (Size w))) st"
    by blast
  have I': "scanInv w h0 {p. inGrid (Size w) p} st"
    using I unfolding set_cells by simp
  have g: "scanGrid w [0..Size w - 1] ?st0 = Some st"
    unfolding scanGrid_cells using s unfolding cells_def .
  have c: "createWorld (Size w) =
      Some \<lparr>Grid = replicate (nat (Size w)) (replicate (nat (Size w)) None), Size = Size w,
                 FishBreed = 0, SharkBreed = 0, Starve = 0\<rparr>"
    using n by (simp add: createWorld_def)
  have "processChronon w h0 r =
              Some (\<lparr>Grid = newGrid st, Size = Size w, FishBreed = FishBreed w,
                     SharkBreed = SharkBreed w, Starve = Starve w\<rparr>, st)"
    unfolding processChronon_def c by (simp add: g)
  then show ?thesis using I' by blast
qed

section \<open>What a chronon guarantees\<close>

lemma wellFormedI:
  assumes sq: "square (Size w) (Grid w)"
    and bound: "\<And>p a. occupant (Grid w) p = Some a \<Longrightarrow> a < length h"
    and inj: "\<And>p q a. occupant (Grid w) p = Some a \<Longrightarrow> occupant (Grid w) q = Some a \<Longrightarrow> q = p"
  shows "wellFormed w h"
proof -
  have "case occupant (Grid w) p of
          None \<Rightarrow> True
        | Some a \<Rightarrow> a < length h \<and>
            list_all (\<lambda>q. occupant (Grid w) q = Some a \<longrightarrow> q = p) (cells (Size w))" for p
  proof (cases "occupant (Grid w) p")
    case None then show ?thesis by simp
  next
    case (Some a)
    have "list_all (\<lambda>q. occupant (Grid w) q = Some a \<longrightarrow> q = p) (cells (Size w))"
      unfolding list_all_iff using inj [OF Some] by blast
    then show ?thesis using Some bound [OF Some] by simp
  qed
  then show ?thesis unfolding wellFormed_def list_all_iff using sq by blast
qed

lemma chronon_result:
  assumes wf: "wellFormed w h"
  obtains st where
    "processChronon w h r =
       Some (\<lparr>Grid = newGrid st, Size = Size w, FishBreed = FishBreed w,
              SharkBreed = SharkBreed w, Starve = Starve w\<rparr>, st)"
    and "frame w h {p. inGrid (Size w) p} st" and "logInv w h {p. inGrid (Size w) p} st"
    and "fateInv w h {p. inGrid (Size w) p} st" and "countInv w h {p. inGrid (Size w) p} st"
    and "1 \<le>s Starve w \<Longrightarrow> energyInv st"
  using processChronon_scanInv [OF wf, of r] unfolding scanInv_def by blast

lemma population_card:
  "population s h w = card {q. inGrid (Size w) q \<and> holds s h (Grid w) q}"
proof -
  have "{x. holds s h (Grid w) x} \<inter> set (cells (Size w))
        = {q. inGrid (Size w) q \<and> holds s h (Grid w) q}"
    by (auto simp: set_cells)
  then show ?thesis
    unfolding population_def distinct_length_filter [OF distinct_cells] by simp
qed

lemma breeders_card:
  "breeders s h w = card {q \<in> {p. inGrid (Size w) p}. eligibleBreeder w h s q}"
proof -
  have "{x. eligibleBreeder w h s x} \<inter> set (cells (Size w))
        = {q \<in> {p. inGrid (Size w) p}. eligibleBreeder w h s q}"
    by (auto simp: set_cells)
  then show ?thesis
    unfolding breeders_def distinct_length_filter [OF distinct_cells] by simp
qed

lemma offspring_card:
  assumes "square (Size w) (Grid w)" "Grid w = newGrid st"
  shows "offspring s h0 (heap st) w = card (born s h0 st)"
proof -
  have "{x. case occupant (Grid w) x of None \<Rightarrow> False
             | Some a \<Rightarrow> length h0 \<le> a \<and> Species (heap st ! a) = s} \<inter> set (cells (Size w))
        = born s h0 st"
    using occupant_Some_inGrid [OF assms(1)] unfolding born_def assms(2) [symmetric]
    by (auto simp: set_cells split: option.splits)
  then show ?thesis
    unfolding offspring_def distinct_length_filter [OF distinct_cells] by simp
qed

lemma chronon_frame_effect:
  assumes wf: "wellFormed w h"
  shows "\<exists>nw st. processChronon w h r = Some (nw, st)
           \<and> length h \<le> length (heap st)
           \<and> (\<forall>a<length h. Species (heap st ! a) = Species (h ! a))
           \<and> (\<forall>a<length h. (\<forall>p. occupant (Grid w) p \<noteq> Some a) \<longrightarrow> heap st ! a = h ! a)
           \<and> (\<forall>p a. occupant (Grid w) p = Some a \<longrightarrow>
                  heap st ! a = h ! a \<or> Age (heap st ! a) = Age (h ! a) + 1)"
proof -
  obtain st where pc: "processChronon w h r =
       Some (\<lparr>Grid = newGrid st, Size = Size w, FishBreed = FishBreed w,
              SharkBreed = SharkBreed w, Starve = Starve w\<rparr>, st)"
    and fr: "frame w h {p. inGrid (Size w) p} st"
    and F: "fateInv w h {p. inGrid (Size w) p} st"
    using chronon_result [OF wf, of r] by blast
  have 1: "length h \<le> length (heap st)" using frame_length [OF fr] .
  have 2: "\<forall>a<length h. Species (heap st ! a) = Species (h ! a)"
    using frame_species [OF fr] by blast
  have 3: "\<forall>a<length h. (\<forall>p. occupant (Grid w) p \<noteq> Some a) \<longrightarrow> heap st ! a = h ! a"
    using frame_untouched [OF fr] by blast
  have 4: "\<forall>p a. occupant (Grid w) p = Some a \<longrightarrow>
                  heap st ! a = h ! a \<or> Age (heap st ! a) = Age (h ! a) + 1"
  proof (intro allI impI)
    fix p a assume o: "occupant (Grid w) p = Some a"
    have "p \<in> {p. inGrid (Size w) p}"
      using occupant_Some_inGrid [OF wf_square [OF wf] o] by simp
    then have "fate w h st p a" using F o unfolding fateInv_def by blast
    then show "heap st ! a = h ! a \<or> Age (heap st ! a) = Age (h ! a) + 1"
      unfolding fate_def by blast
  qed
  show ?thesis using pc 1 2 3 4 by blast
qed

lemma chronon_single_occupancy:
  assumes wf: "wellFormed w h"
  shows "\<exists>nw st. processChronon w h r = Some (nw, st)
           \<and> (\<forall>x y. Clobbered x y \<notin> set (events st))
           \<and> (\<forall>q q' a. occupant (Grid nw) q = Some a \<longrightarrow> occupant (Grid nw) q' = Some a
                  \<longrightarrow> q = q')
           \<and> wellFormed nw (heap st)"
proof -
  obtain st where pc: "processChronon w h r =
       Some (\<lparr>Grid = newGrid st, Size = Size w, FishBreed = FishBreed w,
              SharkBreed = SharkBreed w, Starve = Starve w\<rparr>, st)"
    and fr: "frame w h {p. inGrid (Size w) p} st"
    and L: "logInv w h {p. inGrid (Size w) p} st"
    using chronon_result [OF wf, of r] by blast
  let ?nw = "\<lparr>Grid = newGrid st, Size = Size w, FishBreed = FishBreed w,
              SharkBreed = SharkBreed w, Starve = Starve w\<rparr>"
  have 1: "\<forall>x y. Clobbered x y \<notin> set (events st)" using logInv_clobber [OF L] by blast
  have 2: "\<forall>q q' a. occupant (Grid ?nw) q = Some a \<longrightarrow> occupant (Grid ?nw) q' = Some a
                  \<longrightarrow> q = q'"
    using frame_inj [OF fr] by simp
  have 3: "wellFormed ?nw (heap st)"
  proof (rule wellFormedI)
    show "square (Size ?nw) (Grid ?nw)" using frame_square [OF fr] by simp
    show "a < length (heap st)" if "occupant (Grid ?nw) p = Some a" for p a
      using frame_placed [OF fr, of p a] that by simp
    show "q = p" if "occupant (Grid ?nw) p = Some a" "occupant (Grid ?nw) q = Some a" for p q a
      using frame_inj [OF fr, of q a p] that by simp
  qed
  show ?thesis using pc 1 2 3 by blast
qed

lemma chronon_conservation:
  assumes wf: "wellFormed w h"
  shows "\<exists>nw st. processChronon w h r = Some (nw, st)
           \<and> (\<forall>s. population s (heap st) nw \<le> population s h w + breeders s h w
                 \<and> offspring s h (heap st) nw \<le> breeders s h w
                 \<and> population s (heap st) nw - offspring s h (heap st) nw \<le> population s h w)"
proof -
  obtain st where pc: "processChronon w h r =
       Some (\<lparr>Grid = newGrid st, Size = Size w, FishBreed = FishBreed w,
              SharkBreed = SharkBreed w, Starve = Starve w\<rparr>, st)"
    and fr: "frame w h {p. inGrid (Size w) p} st"
    and C: "countInv w h {p. inGrid (Size w) p} st"
    using chronon_result [OF wf, of r] by blast
  let ?nw = "\<lparr>Grid = newGrid st, Size = Size w, FishBreed = FishBreed w,
              SharkBreed = SharkBreed w, Starve = Starve w\<rparr>"
  let ?V = "{p. inGrid (Size w) p}"
  have sq: "square (Size w) (newGrid st)" using frame_square [OF fr] .
  have "population s (heap st) ?nw \<le> population s h w + breeders s h w
                 \<and> offspring s h (heap st) ?nw \<le> breeders s h w
                 \<and> population s (heap st) ?nw - offspring s h (heap st) ?nw \<le> population s h w"
    for s
  proof -
    have a: "card (settled s h st) \<le> card {p \<in> ?V. holds s h (Grid w) p}"
      and b: "card (born s h st) \<le> card {p \<in> ?V. eligibleBreeder w h s p}"
      using C unfolding countInv_def by blast+
    have po: "population s h w = card {p \<in> ?V. holds s h (Grid w) p}"
      unfolding population_card by simp
    have off: "offspring s h (heap st) ?nw = card (born s h st)"
      by (rule offspring_card) (use sq in simp_all)
    have disj: "settled s h st \<inter> born s h st = {}"
      unfolding settled_def born_def by auto
    have eq: "{q. inGrid (Size ?nw) q \<and> holds s (heap st) (Grid ?nw) q}
              = settled s h st \<union> born s h st"
    proof (intro set_eqI iffI)
      fix q assume "q \<in> {q. inGrid (Size ?nw) q \<and> holds s (heap st) (Grid ?nw) q}"
      then obtain a where a: "occupant (newGrid st) q = Some a" "Species (heap st ! a) = s"
        by (auto simp: holds_def split: option.splits)
      show "q \<in> settled s h st \<union> born s h st"
      proof (cases "a < length h")
        case True
        then show ?thesis using a frame_species [OF fr True] by (auto simp: settled_def)
      next
        case False
        then show ?thesis using a by (auto simp: born_def)
      qed
    next
      fix q assume "q \<in> settled s h st \<union> born s h st"
      then obtain a where a: "occupant (newGrid st) q = Some a"
        and sp: "(a < length h \<and> Species (h ! a) = s) \<or> Species (heap st ! a) = s"
        by (auto simp: settled_def born_def)
      have "Species (heap st ! a) = s" using sp frame_species [OF fr, of a] by auto
      then show "q \<in> {q. inGrid (Size ?nw) q \<and> holds s (heap st) (Grid ?nw) q}"
        using a occupant_Some_inGrid [OF sq a] by (simp add: holds_def)
    qed
    have pn: "population s (heap st) ?nw = card (settled s h st) + card (born s h st)"
      unfolding population_card eq
      using card_Un_disjoint [OF finite_settled [OF sq] finite_born [OF sq] disj] .
    show ?thesis
      unfolding pn off po breeders_card using a b by simp
  qed
  then show ?thesis using pc by blast
qed


lemma chronon_meal:
  assumes wf: "wellFormed w h"
  shows "\<exists>nw st. processChronon w h r = Some (nw, st)
           \<and> (\<forall>s x y. Ate s x y \<in> set (events st) \<longrightarrow>
                  occupant (Grid nw) (x, y) = Some s
                \<and> Species (heap st ! s) = Shark
                \<and> Energy (heap st ! s) = Starve w
                \<and> holds Fish h (Grid w) (x, y)
                \<and> (Skipped x y \<in> set (events st) \<longrightarrow>
                     (\<forall>f q. occupant (Grid w) (x, y) = Some f
                        \<longrightarrow> occupant (Grid nw) q \<noteq> Some f)))"
proof -
  obtain st where pc: "processChronon w h r =
       Some (\<lparr>Grid = newGrid st, Size = Size w, FishBreed = FishBreed w,
              SharkBreed = SharkBreed w, Starve = Starve w\<rparr>, st)"
    and fr: "frame w h {p. inGrid (Size w) p} st"
    and L: "logInv w h {p. inGrid (Size w) p} st"
    using chronon_result [OF wf, of r] by blast
  have "occupant (newGrid st) (x, y) = Some s
                \<and> Species (heap st ! s) = Shark
                \<and> Energy (heap st ! s) = Starve w
                \<and> holds Fish h (Grid w) (x, y)
                \<and> (Skipped x y \<in> set (events st) \<longrightarrow>
                     (\<forall>f q. occupant (Grid w) (x, y) = Some f
                        \<longrightarrow> occupant (newGrid st) q \<noteq> Some f))"
    if a: "Ate s x y \<in> set (events st)" for s x y
  proof -
    note A = logInv_ate [OF L a]
    have 1: "occupant (newGrid st) (x, y) = Some s" "Energy (heap st ! s) = Starve w"
      "s < length h" using A by blast+
    have 2: "(\<forall>f q. occupant (Grid w) (x, y) = Some f \<longrightarrow> occupant (newGrid st) q \<noteq> Some f)"
      if "Skipped x y \<in> set (events st)"
      using logInv_skipped [OF L that] by blast
    have 3: "holds Fish h (Grid w) (x, y) \<and> Species (h ! s) = Shark"
      using A by blast
    then have "Species (heap st ! s) = Shark" using frame_species [OF fr 1(3)] by simp
    then show ?thesis using 1 2 3 by blast
  qed
  then show ?thesis using pc by simp
qed

lemma chronon_breed_reset:
  assumes wf: "wellFormed w h"
  shows "\<exists>nw st. processChronon w h r = Some (nw, st)
           \<and> (\<forall>par c. Bred par c \<in> set (events st) \<longrightarrow>
                  (\<exists>q. occupant (Grid nw) q = Some par) \<and> (\<exists>q. occupant (Grid nw) q = Some c)
                \<and> par < length h \<and> length h \<le> c
                \<and> LastBreed (heap st ! par) = 0 \<and> LastBreed (heap st ! c) = 0)"
proof -
  obtain st where pc: "processChronon w h r =
       Some (\<lparr>Grid = newGrid st, Size = Size w, FishBreed = FishBreed w,
              SharkBreed = SharkBreed w, Starve = Starve w\<rparr>, st)"
    and L: "logInv w h {p. inGrid (Size w) p} st"
    using chronon_result [OF wf, of r] by blast
  have "(\<exists>q. occupant (newGrid st) q = Some par) \<and> (\<exists>q. occupant (newGrid st) q = Some c)
                \<and> par < length h \<and> length h \<le> c
                \<and> LastBreed (heap st ! par) = 0 \<and> LastBreed (heap st ! c) = 0"
    if "Bred par c \<in> set (events st)" for par c
    using logInv_bred [OF L that] by blast
  then show ?thesis using pc by simp
qed

lemma chronon_skip_cause:
  assumes wf: "wellFormed w h"
  shows "\<exists>nw st. processChronon w h r = Some (nw, st)
           \<and> (\<forall>x y. Skipped x y \<in> set (events st) \<longrightarrow>
                  holds Fish h (Grid w) (x, y)
                \<and> (\<exists>s. occupant (Grid nw) (x, y) = Some s
                       \<and> (\<exists>p. occupant (Grid w) p = Some s) \<and> Species (h ! s) = Shark
                       \<and> Ate s x y \<in> set (events st)
                       \<and> (\<forall>par. Bred par s \<notin> set (events st))))"
proof -
  obtain st where pc: "processChronon w h r =
       Some (\<lparr>Grid = newGrid st, Size = Size w, FishBreed = FishBreed w,
              SharkBreed = SharkBreed w, Starve = Starve w\<rparr>, st)"
    and L: "logInv w h {p. inGrid (Size w) p} st"
    using chronon_result [OF wf, of r] by blast
  have "holds Fish h (Grid w) (x, y)
                \<and> (\<exists>s. occupant (newGrid st) (x, y) = Some s
                       \<and> (\<exists>p. occupant (Grid w) p = Some s) \<and> Species (h ! s) = Shark
                       \<and> Ate s x y \<in> set (events st)
                       \<and> (\<forall>par. Bred par s \<notin> set (events st)))"
    if sk: "Skipped x y \<in> set (events st)" for x y
  proof -
    obtain s where s: "occupant (newGrid st) (x, y) = Some s" "s < length h"
      "Species (h ! s) = Shark" "Ate s x y \<in> set (events st)"
      and hf: "holds Fish h (Grid w) (x, y)"
      using logInv_skipped [OF L sk] by blast
    have "\<exists>p. occupant (Grid w) p = Some s" using logInv_ate [OF L s(4)] by blast
    moreover have "Bred par s \<notin> set (events st)" for par
      using logInv_bred [OF L, of par s] s(2) by auto
    ultimately show ?thesis using s hf by blast
  qed
  then show ?thesis using pc by simp
qed

lemma chronon_energy:
  assumes wf: "wellFormed w h" and S: "1 \<le>s Starve w"
  shows "\<exists>nw st. processChronon w h r = Some (nw, st)
           \<and> (\<forall>q s. occupant (Grid nw) q = Some s \<longrightarrow> Species (heap st ! s) = Shark
                  \<longrightarrow> 1 \<le>s Energy (heap st ! s))"
proof -
  obtain st where pc: "processChronon w h r =
       Some (\<lparr>Grid = newGrid st, Size = Size w, FishBreed = FishBreed w,
              SharkBreed = SharkBreed w, Starve = Starve w\<rparr>, st)"
    and E: "1 \<le>s Starve w \<Longrightarrow> energyInv st"
    using chronon_result [OF wf, of r] by blast
  have "1 \<le>s Energy (heap st ! s)"
    if "occupant (newGrid st) q = Some s" "Species (heap st ! s) = Shark" for q s
  proof -
    have "0 <s Energy (heap st ! s)" using E [OF S] that unfolding energyInv_def by blast
    then show ?thesis by (rule sless_facts(3))
  qed
  then show ?thesis using pc by simp
qed

section \<open>Running the transition on small worlds\<close>

lemma upto_0_0: "[0..0::int] = [0]" by (simp add: upto.simps)

lemma upto_0_1: "[0..1::int] = [0, 1]" by (simp add: upto.simps)

lemma upto_0_2: "[0..2::int] = [0, 1, 2]" by (simp add: upto.simps)

lemma Intn_numeral:
  "Intn (numeral k) st = Some (int (pick (numeral k) (rng st)), st\<lparr>rng := tl (rng st)\<rparr>)"
  using Intn_run [of "numeral k" st] by simp

lemma replicate_1: "replicate (Suc 0) x = [x]" by simp

lemma replicate_2: "replicate 2 x = [x, x]" by (simp add: numeral_2_eq_2)

lemma replicate_3: "replicate 3 x = [x, x, x]" by (simp add: numeral_3_eq_3)

lemmas run_defs =
  processChronon_def createWorld_def visitCell_def cellAt_def setCell_def deref_def
  processFish_def processShark_def getAdjacentPositions_def go_rem_def place_def alloc_def
  upto_0_0 upto_0_1 upto_0_2 Intn_numeral replicate_2 replicate_3


lemma nth_same2: "[a, a] ! pick 2 rs = a"
  using pick_less [of 2 rs] by (cases "pick 2 rs") simp_all

lemma scenario_meal_run:
  assumes alive: "\<not> e - 1 \<le>s 0"
  shows "processChronon \<lparr>Grid = [[Some 0, None], [Some 1, None]], Size = 2, FishBreed = fb,
                      SharkBreed = sb, Starve = sv\<rparr>
                    [\<lparr>Species = Shark, Age = ag, Energy = e, LastBreed = lb\<rparr>,
                     \<lparr>Species = Fish, Age = ag', Energy = e', LastBreed = lb'\<rparr>] rs
       = Some (\<lparr>Grid = [[if sb \<le>s lb + 1 then Some 2 else None, None], [Some 0, None]],
                Size = 2, FishBreed = fb, SharkBreed = sb, Starve = sv\<rparr>,
               \<lparr>heap = [\<lparr>Species = Shark, Age = ag + 1, Energy = sv,
                         LastBreed = (if sb \<le>s lb + 1 then 0 else lb + 1)\<rparr>,
                        \<lparr>Species = Fish, Age = ag', Energy = e', LastBreed = lb'\<rparr>]
                       @ (if sb \<le>s lb + 1
                          then [\<lparr>Species = Shark, Age = 0, Energy = sv, LastBreed = 0\<rparr>]
                          else []),
                newGrid = [[if sb \<le>s lb + 1 then Some 2 else None, None], [Some 0, None]],
                rng = tl rs,
                events = [Ate 0 1 0] @ (if sb \<le>s lb + 1 then [Bred 0 2] else [])
                         @ [Skipped 1 0]\<rparr>)"
  using alive by (simp add: run_defs nth_same2)

lemma occupant_in_concat: "occupant g q = Some a \<Longrightarrow> Some a \<in> set (concat g)"
proof -
  assume o: "occupant g q = Some a"
  then have r: "nat (fst q) < length g" "nat (snd q) < length (g ! nat (fst q))"
    and v: "g ! nat (fst q) ! nat (snd q) = Some a"
    by (auto simp: occupant_def cellAt_def split: if_splits)
  have "g ! nat (fst q) \<in> set g" using r(1) by simp
  moreover have "Some a \<in> set (g ! nat (fst q))" using r(2) v nth_mem by fastforce
  ultimately show ?thesis by auto
qed

lemma scenario_meal:
  assumes alive: "\<not> e - 1 \<le>s 0"
  shows "\<exists>nw st.
     processChronon \<lparr>Grid = [[Some 0, None], [Some 1, None]], Size = 2, FishBreed = fb,
                      SharkBreed = sb, Starve = 5\<rparr>
                    [\<lparr>Species = Shark, Age = ag, Energy = e, LastBreed = lb\<rparr>,
                     \<lparr>Species = Fish, Age = ag', Energy = e', LastBreed = lb'\<rparr>] rs
       = Some (nw, st)
     \<and> occupant (Grid nw) (1, 0) = Some 0
     \<and> Species (heap st ! 0) = Shark \<and> Energy (heap st ! 0) = 5
     \<and> (\<forall>q. occupant (Grid nw) q \<noteq> Some 1)"
proof -
  let ?g = "[[if sb \<le>s lb + 1 then Some 2 else None, None], [Some 0, None]]"
  have "occupant ?g q \<noteq> Some 1" for q
    using occupant_in_concat [of ?g q 1] by (auto split: if_splits)
  moreover have "occupant ?g (1, 0) = Some 0" by (simp add: occupant_def cellAt_def)
  ultimately show ?thesis
    unfolding scenario_meal_run [OF alive] by simp
qed

lemma pick_4: "pick 4 rs = 0 \<or> pick 4 rs = 1 \<or> pick 4 rs = 2 \<or> pick 4 rs = 3"
  using pick_less [of 4 rs] by arith

lemma scenario_breed_run:
  "processChronon \<lparr>Grid = [[None, None, None], [None, Some 0, None], [None, None, None]],
                   Size = 3, FishBreed = 0, SharkBreed = sb, Starve = sv\<rparr>
                  [\<lparr>Species = Fish, Age = ag, Energy = e, LastBreed = 0\<rparr>] rs
   = Some (\<lparr>Grid = put (put (replicate 3 (replicate 3 None)) (1, 1) (Some 1))
                       ([(0, 1), (2, 1), (1, 0), (1, 2)] ! pick 4 rs) (Some 0),
            Size = 3, FishBreed = 0, SharkBreed = sb, Starve = sv\<rparr>,
           \<lparr>heap = [\<lparr>Species = Fish, Age = ag + 1, Energy = e, LastBreed = 0\<rparr>,
                    \<lparr>Species = Fish, Age = 0, Energy = 0, LastBreed = 0\<rparr>],
            newGrid = put (put (replicate 3 (replicate 3 None)) (1, 1) (Some 1))
                       ([(0, 1), (2, 1), (1, 0), (1, 2)] ! pick 4 rs) (Some 0),
            rng = tl rs, events = [Bred 0 1]\<rparr>)"
proof -
  have b: "(0::64 word) \<le>s 1" by (simp add: word_sle_eq)
  show ?thesis
    using pick_4 [of rs]
    by (elim disjE) (simp_all add: run_defs put_def b)
qed

lemma scenario_breed:
  "\<exists>nw st q.
     processChronon \<lparr>Grid = [[None, None, None], [None, Some 0, None], [None, None, None]],
                      Size = 3, FishBreed = 0, SharkBreed = sb, Starve = sv\<rparr>
                    [\<lparr>Species = Fish, Age = ag, Energy = e, LastBreed = 0\<rparr>] rs
       = Some (nw, st)
     \<and> q \<in> {(0, 1), (2, 1), (1, 0), (1, 2)}
     \<and> Grid nw = put (put (replicate 3 (replicate 3 None)) (1, 1) (Some 1)) q (Some 0)
     \<and> population Fish (heap st) nw = 2
     \<and> Age (heap st ! 1) = 0 \<and> LastBreed (heap st ! 1) = 0 \<and> LastBreed (heap st ! 0) = 0"
proof -
  let ?q = "[(0, 1), (2, 1), (1, 0), (1, 2)] ! pick 4 rs :: int \<times> int"
  let ?h = "[\<lparr>Species = Fish, Age = ag + 1, Energy = e, LastBreed = 0\<rparr>,
             \<lparr>Species = Fish, Age = 0, Energy = 0, LastBreed = 0\<rparr>]"
  let ?nw = "\<lparr>Grid = put (put (replicate 3 (replicate 3 None)) (1, 1) (Some 1)) ?q (Some 0),
            Size = 3, FishBreed = 0, SharkBreed = sb, Starve = sv\<rparr>"
  let ?st = "\<lparr>heap = ?h,
            newGrid = put (put (replicate 3 (replicate 3 None)) (1, 1) (Some 1)) ?q (Some 0),
            rng = tl rs, events = [Bred 0 1]\<rparr>"
  have qin: "?q \<in> {(0, 1), (2, 1), (1, 0), (1, 2)}"
    using pick_4 [of rs] by (elim disjE) simp_all
  have pop: "population Fish ?h ?nw = 2"
    using pick_4 [of rs]
    by (elim disjE)
       (simp_all add: population_def cells_def holds_def occupant_def cellAt_def put_def
          upto_0_2 replicate_3)
  have "processChronon \<lparr>Grid = [[None, None, None], [None, Some 0, None], [None, None, None]],
                      Size = 3, FishBreed = 0, SharkBreed = sb, Starve = sv\<rparr>
                    [\<lparr>Species = Fish, Age = ag, Energy = e, LastBreed = 0\<rparr>] rs
       = Some (?nw, ?st)
     \<and> ?q \<in> {(0, 1), (2, 1), (1, 0), (1, 2)}
     \<and> Grid ?nw = put (put (replicate 3 (replicate 3 None)) (1, 1) (Some 1)) ?q (Some 0)
     \<and> population Fish (heap ?st) ?nw = 2
     \<and> Age (heap ?st ! 1) = 0 \<and> LastBreed (heap ?st ! 1) = 0 \<and> LastBreed (heap ?st ! 0) = 0"
    using qin pop by (simp add: scenario_breed_run)
  then show ?thesis by blast
qed

section \<open>The claims about a chronon\<close>

lemma pond_wellFormed: "wellFormed pond pondCreatures"
  by (simp add: wellFormed_def pond_def pondCreatures_def square_def cells_def upto_0_1
      occupant_def cellAt_def)

lemma pond_run:
  "processChronon pond pondCreatures [] =
     Some (\<lparr>Grid = [[None, None], [Some 0, None]], Size = 2, FishBreed = 3,
             SharkBreed = 10, Starve = 5\<rparr>,
           \<lparr>heap = [\<lparr>Species = Shark, Age = 1, Energy = 5, LastBreed = 1\<rparr>,
                    \<lparr>Species = Fish, Age = 0, Energy = 0, LastBreed = 0\<rparr>],
            newGrid = [[None, None], [Some 0, None]], rng = [],
            events = [Ate 0 1 0, Skipped 1 0]\<rparr>)"
proof -
  have a: "\<not> (5 :: 64 word) - 1 \<le>s 0" by (simp add: word_sle_eq)
  have b: "\<not> (10 :: 64 word) \<le>s 0 + 1" by (simp add: word_sle_eq)
  show ?thesis
    unfolding pond_def pondCreatures_def scenario_meal_run [OF a]
    using b by simp
qed

text \<open>
  Claim C1, as amended. processChronon assigns to no cell of the old Grid (the old world
  is an argument of the model and is not part of what it returns), but it does write
  through the creature references the old Grid holds. For a well-formed world the store
  only grows, no creature changes its species, a creature that no cell of the old Grid
  refers to is left as it was, and each creature of the old Grid is either left as it was
  or has its age incremented by one.
\<close>

theorem processChronon_frame_effect:
  assumes "wellFormed w h"
  shows "\<exists>nw st. processChronon w h r = Some (nw, st)
           \<and> length h \<le> length (heap st)
           \<and> (\<forall>a<length h. Species (heap st ! a) = Species (h ! a))
           \<and> (\<forall>a<length h. (\<forall>p. occupant (Grid w) p \<noteq> Some a) \<longrightarrow> heap st ! a = h ! a)
           \<and> (\<forall>p a. occupant (Grid w) p = Some a \<longrightarrow>
                  heap st ! a = h ! a \<or> Age (heap st ! a) = Age (h ! a) + 1)"
  using chronon_frame_effect [OF assms] .

theorem processChronon_frame_effect_witness:
  "wellFormed pond pondCreatures
   \<and> (\<exists>nw st. processChronon pond pondCreatures [] = Some (nw, st)
        \<and> length pondCreatures \<le> length (heap st)
        \<and> (\<forall>a<length pondCreatures. Species (heap st ! a) = Species (pondCreatures ! a)))"
proof -
  have wf: "wellFormed pond pondCreatures" by (rule pond_wellFormed)
  from processChronon_frame_effect [OF wf, of "[]"] wf show ?thesis by blast
qed

text \<open>
  Claim C1 as written fails: the shark of the pond, which the old Grid refers to from
  (0,0), has age 0 and breed timer 0 before the call and age 1 and breed timer 1 after it.
\<close>

theorem processChronon_old_creature_counterexample:
  "heap (snd (the (processChronon pond pondCreatures []))) ! 0 \<noteq> pondCreatures ! 0
   \<and> occupant (Grid pond) (0, 0) = Some 0
   \<and> Age (pondCreatures ! 0) = 0
   \<and> Age (heap (snd (the (processChronon pond pondCreatures []))) ! 0) = 1"
  unfolding pond_run
  by (simp add: pond_def pondCreatures_def occupant_def cellAt_def)

text \<open>
  Claim C2. For a well-formed world processChronon returns, no assignment into the new
  Grid hits a cell that already holds an occupant (the ghost log has no \<open>Clobbered\<close>
  entry), no creature is referred to from two cells of the resulting Grid (a cell holds at
  most one reference by its type), and the resulting world is well-formed again.
\<close>

theorem processChronon_single_occupancy:
  assumes "wellFormed w h"
  shows "\<exists>nw st. processChronon w h r = Some (nw, st)
           \<and> (\<forall>x y. Clobbered x y \<notin> set (events st))
           \<and> (\<forall>q q' a. occupant (Grid nw) q = Some a \<longrightarrow> occupant (Grid nw) q' = Some a
                  \<longrightarrow> q = q')
           \<and> wellFormed nw (heap st)"
  using chronon_single_occupancy [OF assms] .

theorem processChronon_single_occupancy_witness:
  "wellFormed pond pondCreatures
   \<and> (\<exists>nw st. processChronon pond pondCreatures [] = Some (nw, st)
        \<and> (\<forall>x y. Clobbered x y \<notin> set (events st)) \<and> wellFormed nw (heap st))"
proof -
  have wf: "wellFormed pond pondCreatures" by (rule pond_wellFormed)
  from processChronon_single_occupancy [OF wf, of "[]"] wf show ?thesis by blast
qed

text \<open>
  Claim C3, as amended. For a well-formed world and each species, the number of creatures
  of that species in the Grid produced by processChronon never exceeds the old count of
  the species plus the number of its eligible breeders, where an eligible breeder is a
  creature of the old Grid whose breed timer, after this chronon's increment (old timer
  plus one), is at or above the species' threshold and that has a valid destination (a
  neighbouring cell that is empty in the old Grid or, for a shark, holds a fish there).
  The newly created individuals are at most as many as the eligible breeders, and the
  creatures carried over are at most the old count.
\<close>

theorem processChronon_conservation:
  assumes "wellFormed w h"
  shows "\<exists>nw st. processChronon w h r = Some (nw, st)
           \<and> (\<forall>s. population s (heap st) nw \<le> population s h w + breeders s h w
                 \<and> offspring s h (heap st) nw \<le> breeders s h w
                 \<and> population s (heap st) nw - offspring s h (heap st) nw \<le> population s h w)"
  using chronon_conservation [OF assms] .

theorem processChronon_conservation_witness:
  "wellFormed pond pondCreatures
   \<and> (\<exists>nw st. processChronon pond pondCreatures [] = Some (nw, st)
        \<and> population Fish (heap st) nw
            \<le> population Fish pondCreatures pond + breeders Fish pondCreatures pond)"
proof -
  have wf: "wellFormed pond pondCreatures" by (rule pond_wellFormed)
  from processChronon_conservation [OF wf, of "[]"] wf show ?thesis by blast
qed

text \<open>
  Claim C3 as written counts the breeders by the breed timer found in the old Grid. A
  lone fish with breed timer 0 and \<open>fishBreedThreshold = 1\<close> is then no eligible breeder,
  yet the transition increments the timer to 1 before comparing, the fish breeds, and two
  fish come out of an old count of one.
\<close>

theorem processChronon_conservation_counterexample:
  "population Fish
     (heap (snd (the (processChronon
        \<lparr>Grid = [[Some 0, None], [None, None]], Size = 2, FishBreed = 1, SharkBreed = 10,
         Starve = 5\<rparr>
        [\<lparr>Species = Fish, Age = 0, Energy = 0, LastBreed = 0\<rparr>] []))))
     (fst (the (processChronon
        \<lparr>Grid = [[Some 0, None], [None, None]], Size = 2, FishBreed = 1, SharkBreed = 10,
         Starve = 5\<rparr>
        [\<lparr>Species = Fish, Age = 0, Energy = 0, LastBreed = 0\<rparr>] []))) = 2
   \<and> population Fish [\<lparr>Species = Fish, Age = 0, Energy = 0, LastBreed = 0\<rparr>]
        \<lparr>Grid = [[Some 0, None], [None, None]], Size = 2, FishBreed = 1, SharkBreed = 10,
         Starve = 5\<rparr> = 1
   \<and> breedersAsWritten Fish [\<lparr>Species = Fish, Age = 0, Energy = 0, LastBreed = 0\<rparr>]
        \<lparr>Grid = [[Some 0, None], [None, None]], Size = 2, FishBreed = 1, SharkBreed = 10,
         Starve = 5\<rparr> = 0"
proof -
  have a: "(1 :: 64 word) \<le>s 1" "\<not> (1 :: 64 word) \<le>s 0" by (simp_all add: word_sle_eq)
  have run: "processChronon
        \<lparr>Grid = [[Some 0, None], [None, None]], Size = 2, FishBreed = 1, SharkBreed = 10,
         Starve = 5\<rparr>
        [\<lparr>Species = Fish, Age = 0, Energy = 0, LastBreed = 0\<rparr>] []
      = Some (\<lparr>Grid = [[Some 1, None], [Some 0, None]], Size = 2, FishBreed = 1,
               SharkBreed = 10, Starve = 5\<rparr>,
              \<lparr>heap = [\<lparr>Species = Fish, Age = 1, Energy = 0, LastBreed = 0\<rparr>,
                       \<lparr>Species = Fish, Age = 0, Energy = 0, LastBreed = 0\<rparr>],
               newGrid = [[Some 1, None], [Some 0, None]], rng = [], events = [Bred 0 1]\<rparr>)"
    using a by (simp add: run_defs pick_def)
  show ?thesis
    unfolding run using a
    by (simp add: population_def breedersAsWritten_def eligibleAsWritten_def threshold_def
        cells_def upto_0_1 holds_def occupant_def cellAt_def)
qed



text \<open>
  Claim C5. What the claim says of a meal is what the program sets out to do (its README:
  a shark that moves to a square occupied by a fish eats the fish), and the transition
  misses one case. The prey is looked up in the old Grid only, so a fish whose cell was
  scanned before the shark's has already moved when the shark takes its old cell. In the
  2 by 2 world with a fish at (0,0) and a fresh shark at (1,0), for every sequence of
  draws: the fish moves to (0,1); the shark then moves onto (0,0), where the old Grid
  still shows the fish, and has its energy reset to \<open>starveThreshold = 5\<close> as after a
  meal; and the fish it is supposed to have eaten is in the new Grid at (0,1).
\<close>

theorem processChronon_eaten_fish_survives:
  "processChronon
     \<lparr>Grid = [[Some 0, None], [Some 1, None]], Size = 2, FishBreed = 3, SharkBreed = 10,
      Starve = 5\<rparr>
     [\<lparr>Species = Fish, Age = 0, Energy = 0, LastBreed = 0\<rparr>,
      \<lparr>Species = Shark, Age = 0, Energy = 5, LastBreed = 0\<rparr>] rs
   = Some (\<lparr>Grid = [[Some 1, Some 0], [None, None]], Size = 2, FishBreed = 3,
            SharkBreed = 10, Starve = 5\<rparr>,
           \<lparr>heap = [\<lparr>Species = Fish, Age = 1, Energy = 0, LastBreed = 1\<rparr>,
                    \<lparr>Species = Shark, Age = 1, Energy = 5, LastBreed = 1\<rparr>],
            newGrid = [[Some 1, Some 0], [None, None]], rng = tl (tl rs),
            events = [Ate 1 0 0]\<rparr>)"
proof -
  have a: "\<not> (3 :: 64 word) \<le>s 1" "\<not> (10 :: 64 word) \<le>s 1" "\<not> (4 :: 64 word) \<le>s 0"
    by (simp_all add: word_sle_eq)
  show ?thesis using a by (simp add: run_defs nth_same2)
qed

text \<open>The world of this run is one the program builds.\<close>

lemma eaten_fish_world_wellFormed:
  "wellFormed
     \<lparr>Grid = [[Some 0, None], [Some 1, None]], Size = 2, FishBreed = 3, SharkBreed = 10,
      Starve = 5\<rparr>
     [\<lparr>Species = Fish, Age = 0, Energy = 0, LastBreed = 0\<rparr>,
      \<lparr>Species = Shark, Age = 0, Energy = 5, LastBreed = 0\<rparr>]"
  by (simp add: wellFormed_def square_def cells_def upto_0_1 occupant_def cellAt_def)

text \<open>
  A pond in which the fish breeds: it sits at (0,0) of a 2 by 2 grid with its breed timer
  one below the threshold.
\<close>

lemma nursery_run:
  "processChronon
     \<lparr>Grid = [[Some 0, None], [None, None]], Size = 2, FishBreed = 1, SharkBreed = 10,
      Starve = 5\<rparr>
     [\<lparr>Species = Fish, Age = 0, Energy = 0, LastBreed = 0\<rparr>] []
   = Some (\<lparr>Grid = [[Some 1, None], [Some 0, None]], Size = 2, FishBreed = 1,
            SharkBreed = 10, Starve = 5\<rparr>,
           \<lparr>heap = [\<lparr>Species = Fish, Age = 1, Energy = 0, LastBreed = 0\<rparr>,
                    \<lparr>Species = Fish, Age = 0, Energy = 0, LastBreed = 0\<rparr>],
            newGrid = [[Some 1, None], [Some 0, None]], rng = [], events = [Bred 0 1]\<rparr>)"
proof -
  have a: "(1 :: 64 word) \<le>s 1" by (simp add: word_sle_eq)
  show ?thesis using a by (simp add: run_defs pick_def)
qed

lemma nursery_wellFormed:
  "wellFormed
     \<lparr>Grid = [[Some 0, None], [None, None]], Size = 2, FishBreed = 1, SharkBreed = 10,
      Starve = 5\<rparr>
     [\<lparr>Species = Fish, Age = 0, Energy = 0, LastBreed = 0\<rparr>]"
  by (simp add: wellFormed_def square_def cells_def upto_0_1 occupant_def cellAt_def)

text \<open>
  Claim C6. In a well-formed world, for every creature that reproduces in a chronon, the
  parent (a creature of the old Grid) and the newly created child are both in the new
  Grid and both have breed timer 0 after that chronon. In particular, on a 3 by 3 grid
  with a single fish at (1,1) whose breed timer is at the threshold
  \<open>fishBreedThreshold = 0\<close>, after one chronon exactly two fish exist: the child at (1,1)
  with age 0 and breed timer 0, and the parent at a neighbour of (1,1) with breed timer 0.
\<close>

theorem processChronon_breed_reset:
  assumes "wellFormed w h"
  shows "(\<exists>nw st. processChronon w h r = Some (nw, st)
           \<and> (\<forall>par c. Bred par c \<in> set (events st) \<longrightarrow>
                  (\<exists>q. occupant (Grid nw) q = Some par) \<and> (\<exists>q. occupant (Grid nw) q = Some c)
                \<and> par < length h \<and> length h \<le> c
                \<and> LastBreed (heap st ! par) = 0 \<and> LastBreed (heap st ! c) = 0))
       \<and> (\<exists>nw st q.
             processChronon
               \<lparr>Grid = [[None, None, None], [None, Some 0, None], [None, None, None]],
                Size = 3, FishBreed = 0, SharkBreed = sb, Starve = sv\<rparr>
               [\<lparr>Species = Fish, Age = ag, Energy = e, LastBreed = 0\<rparr>] rs
               = Some (nw, st)
           \<and> q \<in> {(0, 1), (2, 1), (1, 0), (1, 2)}
           \<and> Grid nw = put (put (replicate 3 (replicate 3 None)) (1, 1) (Some 1)) q (Some 0)
           \<and> population Fish (heap st) nw = 2
           \<and> Age (heap st ! 1) = 0 \<and> LastBreed (heap st ! 1) = 0
           \<and> LastBreed (heap st ! 0) = 0)"
  using chronon_breed_reset [OF assms] scenario_breed by blast

theorem processChronon_breed_reset_witness:
  "wellFormed
     \<lparr>Grid = [[Some 0, None], [None, None]], Size = 2, FishBreed = 1, SharkBreed = 10,
      Starve = 5\<rparr>
     [\<lparr>Species = Fish, Age = 0, Energy = 0, LastBreed = 0\<rparr>]
   \<and> (\<exists>nw st.
        processChronon
          \<lparr>Grid = [[Some 0, None], [None, None]], Size = 2, FishBreed = 1, SharkBreed = 10,
           Starve = 5\<rparr>
          [\<lparr>Species = Fish, Age = 0, Energy = 0, LastBreed = 0\<rparr>] [] = Some (nw, st)
      \<and> Bred 0 1 \<in> set (events st)
      \<and> LastBreed (heap st ! 0) = 0 \<and> LastBreed (heap st ! 1) = 0)"
proof -
  let ?w = "\<lparr>Grid = [[Some 0, None], [None, None]], Size = 2, FishBreed = 1, SharkBreed = 10,
      Starve = 5\<rparr>"
  let ?h = "[\<lparr>Species = Fish, Age = 0, Energy = 0, LastBreed = 0\<rparr>]"
  have wf: "wellFormed ?w ?h" by (rule nursery_wellFormed)
  obtain nw st where pc: "processChronon ?w ?h [] = Some (nw, st)"
    and al: "\<forall>par c. Bred par c \<in> set (events st) \<longrightarrow>
                  (\<exists>q. occupant (Grid nw) q = Some par) \<and> (\<exists>q. occupant (Grid nw) q = Some c)
                \<and> par < length ?h \<and> length ?h \<le> c
                \<and> LastBreed (heap st ! par) = 0 \<and> LastBreed (heap st ! c) = 0"
    using processChronon_breed_reset [OF wf, where r = "[]", THEN conjunct1] by blast
  have b: "Bred 0 1 \<in> set (events st)" using pc unfolding nursery_run by auto
  then have "LastBreed (heap st ! 0) = 0 \<and> LastBreed (heap st ! 1) = 0"
    using al by blast
  then show ?thesis using wf pc b by blast
qed

text \<open>
  Claim C8, as amended. In a well-formed world, whenever an old-grid cell holding a
  creature is skipped because the corresponding cell of the new Grid is already occupied,
  the skipped creature is a fish and the occupant is a shark of the old Grid that moved
  onto the cell by predation earlier in the scan; the occupant is never the child of a
  reproduction (a child is stored in its parent's cell, which is the cell being scanned).
\<close>

theorem processChronon_skip_cause:
  assumes "wellFormed w h"
  shows "\<exists>nw st. processChronon w h r = Some (nw, st)
           \<and> (\<forall>x y. Skipped x y \<in> set (events st) \<longrightarrow>
                  holds Fish h (Grid w) (x, y)
                \<and> (\<exists>s. occupant (Grid nw) (x, y) = Some s
                       \<and> (\<exists>p. occupant (Grid w) p = Some s) \<and> Species (h ! s) = Shark
                       \<and> Ate s x y \<in> set (events st)
                       \<and> (\<forall>par. Bred par s \<notin> set (events st))))"
  using chronon_skip_cause [OF assms] .

theorem processChronon_skip_cause_witness:
  "wellFormed pond pondCreatures
   \<and> (\<exists>nw st. processChronon pond pondCreatures [] = Some (nw, st)
        \<and> Skipped 1 0 \<in> set (events st)
        \<and> holds Fish pondCreatures (Grid pond) (1, 0)
        \<and> (\<exists>s. occupant (Grid nw) (1, 0) = Some s \<and> Species (pondCreatures ! s) = Shark
               \<and> Ate s 1 0 \<in> set (events st)))"
proof -
  have wf: "wellFormed pond pondCreatures" by (rule pond_wellFormed)
  obtain nw st where pc: "processChronon pond pondCreatures [] = Some (nw, st)"
    and al: "\<forall>x y. Skipped x y \<in> set (events st) \<longrightarrow>
                  holds Fish pondCreatures (Grid pond) (x, y)
                \<and> (\<exists>s. occupant (Grid nw) (x, y) = Some s
                       \<and> (\<exists>p. occupant (Grid pond) p = Some s)
                       \<and> Species (pondCreatures ! s) = Shark
                       \<and> Ate s x y \<in> set (events st)
                       \<and> (\<forall>par. Bred par s \<notin> set (events st)))"
    using processChronon_skip_cause [OF wf, of "[]"] by blast
  have b: "Skipped 1 0 \<in> set (events st)" using pc unfolding pond_run by auto
  then have "holds Fish pondCreatures (Grid pond) (1, 0)
        \<and> (\<exists>s. occupant (Grid nw) (1, 0) = Some s \<and> Species (pondCreatures ! s) = Shark
               \<and> Ate s 1 0 \<in> set (events st))"
    using al by blast
  then show ?thesis using wf pc b by blast
qed

text \<open>
  Claim C8 as written fails in the pond: the cell (1,0), which holds the fish, is skipped,
  no creature has reproduced, and the occupant of (1,0) in the new Grid is the shark that
  the old Grid holds at (0,0), moved there by predation before (1,0) was scanned.
\<close>

theorem processChronon_skip_cause_counterexample:
  "events (snd (the (processChronon pond pondCreatures []))) = [Ate 0 1 0, Skipped 1 0]
   \<and> occupant (Grid (fst (the (processChronon pond pondCreatures [])))) (1, 0) = Some 0
   \<and> occupant (Grid pond) (0, 0) = Some 0
   \<and> occupant (Grid pond) (1, 0) = Some 1
   \<and> length pondCreatures = 2"
  unfolding pond_run
  by (simp add: pond_def pondCreatures_def occupant_def cellAt_def)

text \<open>
  Claim C9. In a well-formed world with \<open>starveThreshold \<ge> 1\<close>, every shark in the Grid
  produced by processChronon has energy at least 1, whatever the energies of the sharks
  of the input Grid are.
\<close>

theorem processChronon_sharks_have_energy:
  assumes "wellFormed w h" and "1 \<le>s Starve w"
  shows "\<exists>nw st. processChronon w h r = Some (nw, st)
           \<and> (\<forall>q s. occupant (Grid nw) q = Some s \<longrightarrow> Species (heap st ! s) = Shark
                  \<longrightarrow> 1 \<le>s Energy (heap st ! s))"
  using chronon_energy [OF assms] .

theorem processChronon_sharks_have_energy_witness:
  "wellFormed pond pondCreatures \<and> 1 \<le>s Starve pond
   \<and> (\<exists>nw st. processChronon pond pondCreatures [] = Some (nw, st)
        \<and> occupant (Grid nw) (1, 0) = Some 0 \<and> Species (heap st ! 0) = Shark
        \<and> 1 \<le>s Energy (heap st ! 0))"
proof -
  have wf: "wellFormed pond pondCreatures" by (rule pond_wellFormed)
  have s: "1 \<le>s Starve pond" by (simp add: pond_def word_sle_eq)
  obtain nw st where pc: "processChronon pond pondCreatures [] = Some (nw, st)"
    and al: "\<forall>q s. occupant (Grid nw) q = Some s \<longrightarrow> Species (heap st ! s) = Shark
                  \<longrightarrow> 1 \<le>s Energy (heap st ! s)"
    using processChronon_sharks_have_energy [OF wf s, of "[]"] by blast
  have o: "occupant (Grid nw) (1, 0) = Some 0" "Species (heap st ! 0) = Shark"
    using pc unfolding pond_run by (auto simp: occupant_def cellAt_def)
  then have "1 \<le>s Energy (heap st ! 0)" using al by blast
  then show ?thesis using wf s pc o by blast
qed

end
